theory Spec2Isabelle
  imports Main "HOL-Library.Log_Nat" "HOL-Library.Multiset"
begin

section \<open>Python values used by \<open>utils/dataset.py\<close>\<close>

text \<open>
  Exceptions are values: every function of the module that can raise returns
  \<open>error + 'a\<close>, with \<open>Inl\<close> carrying the exception class.
\<close>

datatype error =
    IOError | IndexError | KeyError | ValueError | ZeroDivisionError | OverflowError

subsection \<open>Sequences: indexing and slicing\<close>

text \<open>
  \<open>xs[i]\<close> on a list or on the first axis of an array: a negative index counts from
  the end, anything else outside the sequence raises \<open>IndexError\<close>.
\<close>

definition py_getitem :: "'a list \<Rightarrow> int \<Rightarrow> error + 'a" where
  "py_getitem xs i =
     (if 0 \<le> i \<and> i < int (length xs) then Inr (xs ! nat i)
      else if i < 0 \<and> - int (length xs) \<le> i then Inr (xs ! nat (i + int (length xs)))
      else Inl IndexError)"

text \<open>
  A slice bound is clamped into \<open>[0, len]\<close> after a negative bound has been shifted by
  the length; \<open>xs[lo:hi]\<close> is empty when the clamped bounds cross. \<open>None\<close> is an omitted
  bound.
\<close>

definition slice_bound :: "nat \<Rightarrow> int \<Rightarrow> nat" where
  "slice_bound n i = (if i < 0 then nat (max (i + int n) 0) else min (nat i) n)"

definition py_slice :: "'a list \<Rightarrow> int option \<Rightarrow> int option \<Rightarrow> 'a list" where
  "py_slice xs lo hi =
     (let n = length xs;
          a = (case lo of None \<Rightarrow> 0 | Some i \<Rightarrow> slice_bound n i);
          b = (case hi of None \<Rightarrow> n | Some j \<Rightarrow> slice_bound n j)
      in drop a (take b xs))"

subsection \<open>Dictionaries\<close>

text \<open>
  A \<open>dict\<close> is an association list in insertion order; storing under a key that is
  present replaces its value in place. A dict comprehension stores its pairs from left
  to right. \<open>d[k]\<close> raises \<open>KeyError\<close> for a missing key.
\<close>

fun dict_set :: "('k \<times> 'v) list \<Rightarrow> 'k \<Rightarrow> 'v \<Rightarrow> ('k \<times> 'v) list" where
  "dict_set [] k v = [(k, v)]"
| "dict_set ((k', v') # d) k v = (if k' = k then (k, v) # d else (k', v') # dict_set d k v)"

definition dict_of :: "('k \<times> 'v) list \<Rightarrow> ('k \<times> 'v) list" where
  "dict_of kvs = foldl (\<lambda>d (k, v). dict_set d k v) [] kvs"

definition dict_get :: "('k \<times> 'v) list \<Rightarrow> 'k \<Rightarrow> error + 'v" where
  "dict_get d k = (case map_of d k of None \<Rightarrow> Inl KeyError | Some v \<Rightarrow> Inr v)"

definition enumerate_py :: "'a list \<Rightarrow> (int \<times> 'a) list" where
  "enumerate_py xs = zip (map int [0..<length xs]) xs"

subsection \<open>Loops that may raise\<close>

text \<open>
  \<open>for x in xs: body\<close> over a state, stopping at the first exception.
\<close>

fun for_each :: "'a list \<Rightarrow> ('a \<Rightarrow> 'st \<Rightarrow> error + 'st) \<Rightarrow> 'st \<Rightarrow> error + 'st" where
  "for_each [] body st = Inr st"
| "for_each (x # xs) body st =
     (case body x st of Inl e \<Rightarrow> Inl e | Inr st' \<Rightarrow> for_each xs body st')"

subsection \<open>Floats\<close>

text \<open>
  A finite binary64 value is \<open>mant * 2 ^ expo\<close>. An operation computes the exact result
  and rounds it to 53 significant bits, ties to even (\<open>round53\<close>). Exponent range is
  left out of \<open>round53\<close>: the only products formed below are of a constant in \<open>(0, 1)\<close>
  with a converted integer, which neither overflow nor reach the subnormal range, and
  the conversion of an integer checks for overflow itself.
\<close>

datatype float64 = Float (mant: int) (expo: int)

definition round53 :: "float64 \<Rightarrow> float64" where
  "round53 x =
     (let a = \<bar>mant x\<bar>; k = bitlen a
      in if k \<le> 53 then x
         else
           let s = nat (k - 53); q = a div 2 ^ s; r = a mod 2 ^ s;
               q' = (if 2 ^ s < 2 * r \<or> (2 * r = 2 ^ s \<and> odd q) then q + 1 else q)
           in Float (sgn (mant x) * q') (expo x + int s))"

definition float_mul :: "float64 \<Rightarrow> float64 \<Rightarrow> float64" where
  "float_mul x y = round53 (Float (mant x * mant y) (expo x + expo y))"

definition float_add :: "float64 \<Rightarrow> float64 \<Rightarrow> float64" where
  "float_add x y =
     (let e = min (expo x) (expo y)
      in round53 (Float (mant x * 2 ^ nat (expo x - e) + mant y * 2 ^ nat (expo y - e)) e))"

text \<open>
  \<open>float * int\<close> converts the integer first; the conversion rounds like any other
  operation and raises \<open>OverflowError\<close> when the result is beyond the largest double.
\<close>

definition float_of_int :: "int \<Rightarrow> error + float64" where
  "float_of_int n =
     (let x = round53 (Float n 0)
      in if 2 ^ 1024 \<le> \<bar>mant x\<bar> * 2 ^ nat (expo x) then Inl OverflowError else Inr x)"

text \<open>\<open>int(x)\<close> truncates toward zero.\<close>

definition py_int :: "float64 \<Rightarrow> int" where
  "py_int x =
     (if 0 \<le> expo x then mant x * 2 ^ nat (expo x)
      else sgn (mant x) * (\<bar>mant x\<bar> div 2 ^ nat (- expo x)))"

text \<open>The literals \<open>0.7\<close> and \<open>0.15\<close> as the doubles nearest to them.\<close>

definition train_split :: float64 where
  "train_split = Float 3152519739159347 (- 52)"

definition validation_split :: float64 where
  "validation_split = Float 5404319552844595 (- 55)"

section \<open>\<open>SAMRamanDataset\<close>\<close>

text \<open>
  A sample (one row of a spectra array) is a value of the type parameter \<open>'s\<close>. The
  tensor conversions of \<open>__getitem__\<close> keep the values; \<open>unsqueeze(0)\<close> wraps the row in
  a leading axis of length one, here a singleton list.
\<close>

record 's SAMRamanDataset =
  spectral_data :: "'s list"
  labels :: "int list"

definition dataset_len :: "'s SAMRamanDataset \<Rightarrow> int" where
  "dataset_len self = int (length (labels self))"

definition getitem :: "'s SAMRamanDataset \<Rightarrow> int \<Rightarrow> error + ('s list \<times> int)" where
  "getitem self idx =
     (case py_getitem (spectral_data self) idx of
        Inl e \<Rightarrow> Inl e
      | Inr row \<Rightarrow>
          (case py_getitem (labels self) idx of
             Inl e \<Rightarrow> Inl e
           | Inr label \<Rightarrow> Inr ([row], label)))"

section \<open>\<open>SAMRaman\<close>\<close>

subsection \<open>Configuration and the outside world\<close>

text \<open>The constructor's arguments, as stored on \<open>self\<close>.\<close>

record config =
  spectral_dirs :: "string list"
  label_dirs :: "string list"
  patient_intervals :: "int list"
  use_pre_split :: bool
  train_data_path :: "string list"
  train_labels_path :: "string list"
  test_data_path :: "string list"
  test_labels_path :: "string list"
  batch_size :: int
  seed :: int

text \<open>
  What the module calls and does not define is a parameter:
  \<^item> \<open>np.load\<close>, as the arrays behind the paths (\<open>None\<close>: the load raises); a spectra
    file is a list of rows, a label file a list of raw labels of an ordered type \<open>'l\<close>;
  \<^item> numpy's global generator, a state of type \<open>'g\<close>: \<open>np.random.seed\<close> replaces it,
    \<open>np.random.permutation\<close> reads and advances it;
  \<^item> sklearn's \<open>train_test_split(data, labels, test_size=0.25, stratify=labels,
    random_state=seed)\<close>, which returns train data, validation data, train labels and
    validation labels, or raises.
\<close>

record ('s, 'l, 'g) env =
  load_spectra :: "string \<Rightarrow> 's list option"
  load_labels :: "string \<Rightarrow> 'l list option"
  np_random_seed :: "int \<Rightarrow> error + 'g"
  np_random_permutation :: "nat list \<Rightarrow> 'g \<Rightarrow> nat list \<times> 'g"
  train_test_split ::
    "'s list \<Rightarrow> 'l list \<Rightarrow> int \<Rightarrow> error + ('s list \<times> 's list \<times> 'l list \<times> 'l list)"

text \<open>\<open>np.unique\<close>: the distinct values in ascending order. \<open>np.arange(n)\<close>.\<close>

definition np_unique :: "'l::linorder list \<Rightarrow> 'l list" where
  "np_unique xs = sort (remdups xs)"

definition np_arange :: "int \<Rightarrow> nat list" where
  "np_arange n = [0..<nat n]"

text \<open>\<open>spectra[labels == l]\<close>: the rows whose label is \<open>l\<close>, in order.\<close>

definition mask_select :: "'s list \<Rightarrow> 'l list \<Rightarrow> 'l \<Rightarrow> 's list" where
  "mask_select spectra ls l = map fst (filter (\<lambda>(s, l'). l' = l) (zip spectra ls))"

subsection \<open>\<open>_get_label_mapping\<close>\<close>

definition extend_loaded :: "(string \<Rightarrow> 'a list option) \<Rightarrow> string \<Rightarrow> 'a list \<Rightarrow> error + 'a list" where
  "extend_loaded load f acc = (case load f of None \<Rightarrow> Inl IOError | Some a \<Rightarrow> Inr (acc @ a))"

definition gather_labels :: "('s, 'l, 'g) env \<Rightarrow> config \<Rightarrow> error + 'l list" where
  "gather_labels env cfg =
     (if use_pre_split cfg then
        (case for_each (train_labels_path cfg) (extend_loaded (load_labels env)) [] of
           Inl e \<Rightarrow> Inl e
         | Inr ls \<Rightarrow> for_each (test_labels_path cfg) (extend_loaded (load_labels env)) ls)
      else for_each (label_dirs cfg) (extend_loaded (load_labels env)) [])"

definition get_label_mapping ::
  "('s, 'l::linorder, 'g) env \<Rightarrow> config \<Rightarrow> error + ('l \<times> int) list" where
  "get_label_mapping env cfg =
     (case gather_labels env cfg of
        Inl e \<Rightarrow> Inl e
      | Inr ls \<Rightarrow> Inr (dict_of (map (\<lambda>(idx, l). (l, idx)) (enumerate_py (np_unique ls)))))"

text \<open>Line 54: \<open>{idx: l for l, idx in self.label_map.items()}\<close>.\<close>

definition invert_map :: "('l \<times> int) list \<Rightarrow> (int \<times> 'l) list" where
  "invert_map label_map = dict_of (map (\<lambda>(l, idx). (idx, l)) label_map)"

subsection \<open>\<open>_get_splits\<close>\<close>

text \<open>
  One of the three \<open>defaultdict(list)\<close>s: its \<open>"data"\<close> and \<open>"labels"\<close> entries, both
  the empty list until something is stored.
\<close>

record 's split_set =
  set_data :: "'s list"
  set_labels :: "int list"

record 's split_sets =
  train_set :: "'s split_set"
  val_set :: "'s split_set"
  test_set :: "'s split_set"

definition empty_set :: "'s split_set" where
  "empty_set = \<lparr>set_data = [], set_labels = []\<rparr>"

definition empty_sets :: "'s split_sets" where
  "empty_sets = \<lparr>train_set = empty_set, val_set = empty_set, test_set = empty_set\<rparr>"

text \<open>
  Pre-split mode, lines 101 to 106: one label is looked up and appended.
\<close>

definition add_label :: "('l \<times> int) list \<Rightarrow> 'l \<Rightarrow> 's split_set \<Rightarrow> error + 's split_set" where
  "add_label label_map l d =
     (case dict_get label_map l of
        Inl e \<Rightarrow> Inl e
      | Inr code \<Rightarrow> Inr (d\<lparr>set_labels := set_labels d @ [code]\<rparr>))"

text \<open>Pre-split mode, lines 88 to 106: the body of the loop over the zipped paths.\<close>

definition presplit_group ::
  "('s, 'l, 'g) env \<Rightarrow> ('l \<times> int) list \<Rightarrow> int \<Rightarrow> string \<times> string \<times> string \<times> string \<Rightarrow>
     's split_sets \<Rightarrow> error + 's split_sets" where
  "presplit_group env label_map sd paths sets =
     (case paths of (train_data_p, train_labels_p, test_data_p, test_labels_p) \<Rightarrow>
      case load_spectra env test_data_p of None \<Rightarrow> Inl IOError | Some test_set_data \<Rightarrow>
      case load_labels env test_labels_p of None \<Rightarrow> Inl IOError | Some test_set_labels \<Rightarrow>
      case load_spectra env train_data_p of None \<Rightarrow> Inl IOError | Some tv_data \<Rightarrow>
      case load_labels env train_labels_p of None \<Rightarrow> Inl IOError | Some tv_labels \<Rightarrow>
      case train_test_split env tv_data tv_labels sd of
        Inl e \<Rightarrow> Inl e
      | Inr (train_set_data, validation_set_data, train_set_labels, validation_set_labels) \<Rightarrow>
      case for_each test_set_labels (add_label label_map)
             ((test_set sets)\<lparr>set_data := test_set_data\<rparr>) of Inl e \<Rightarrow> Inl e | Inr te \<Rightarrow>
      case for_each train_set_labels (add_label label_map)
             ((train_set sets)\<lparr>set_data := train_set_data\<rparr>) of Inl e \<Rightarrow> Inl e | Inr tr \<Rightarrow>
      case for_each validation_set_labels (add_label label_map)
             ((val_set sets)\<lparr>set_data := validation_set_data\<rparr>) of Inl e \<Rightarrow> Inl e | Inr va \<Rightarrow>
      Inr \<lparr>train_set = tr, val_set = va, test_set = te\<rparr>)"

text \<open>
  Generation mode, lines 129 to 145: the body of each of the three loops over patient
  indices, for the set it extends. A patient index is a natural number and the slice
  bounds are unbounded integers; numpy's 64-bit integers agree with them for every
  array that fits in memory.
\<close>

definition add_patient ::
  "('l \<times> int) list \<Rightarrow> 's list \<Rightarrow> int \<Rightarrow> 'l \<Rightarrow> nat \<Rightarrow> 's split_set \<Rightarrow> error + 's split_set" where
  "add_patient label_map label_spectra p_int l i d =
     (case dict_get label_map l of
        Inl e \<Rightarrow> Inl e
      | Inr code \<Rightarrow>
          Inr (d\<lparr>set_data := set_data d
                   @ py_slice label_spectra (Some (int i * p_int)) (Some (int i * p_int + p_int)),
                 set_labels := set_labels d @ replicate (nat p_int) code\<rparr>))"

text \<open>Lines 126 and 127.\<close>

definition split_ends :: "int \<Rightarrow> error + (int \<times> int)" where
  "split_ends num_patients =
     (case float_of_int num_patients of
        Inl e \<Rightarrow> Inl e
      | Inr fn \<Rightarrow>
          Inr (py_int (float_mul train_split fn),
               py_int (float_mul (float_add train_split validation_split) fn)))"

text \<open>Lines 129, 135 and 141: the three ranges of the permuted patient indices.\<close>

definition split_patients :: "nat list \<Rightarrow> int \<Rightarrow> int \<Rightarrow> nat list \<times> nat list \<times> nat list" where
  "split_patients patient_idxs train_split_end validation_split_end =
     (py_slice patient_idxs None (Some train_split_end),
      py_slice patient_idxs (Some train_split_end) (Some validation_split_end),
      py_slice patient_idxs (Some validation_split_end) None)"

text \<open>Lines 117 to 145: the body of the loop over the labels of one source.\<close>

definition split_label ::
  "('s, 'l, 'g) env \<Rightarrow> ('l \<times> int) list \<Rightarrow> 's list \<Rightarrow> 'l list \<Rightarrow> int \<Rightarrow> 'l \<Rightarrow>
     's split_sets \<times> 'g \<Rightarrow> error + ('s split_sets \<times> 'g)" where
  "split_label env label_map spectra ls p_int l st =
     (case st of (sets, g) \<Rightarrow>
      if length ls \<noteq> length spectra then Inl IndexError
      else if p_int = 0 then Inl ZeroDivisionError
      else
        let label_spectra = mask_select spectra ls l;
            num_patients = int (length label_spectra) div p_int
        in case np_random_permutation env (np_arange num_patients) g of (patient_idxs, g') \<Rightarrow>
           case split_ends num_patients of Inl e \<Rightarrow> Inl e | Inr (train_split_end, validation_split_end) \<Rightarrow>
           case split_patients patient_idxs train_split_end validation_split_end of
             (train_idxs, val_idxs, test_idxs) \<Rightarrow>
           case for_each train_idxs (add_patient label_map label_spectra p_int l) (train_set sets) of
             Inl e \<Rightarrow> Inl e | Inr tr \<Rightarrow>
           case for_each val_idxs (add_patient label_map label_spectra p_int l) (val_set sets) of
             Inl e \<Rightarrow> Inl e | Inr va \<Rightarrow>
           case for_each test_idxs (add_patient label_map label_spectra p_int l) (test_set sets) of
             Inl e \<Rightarrow> Inl e | Inr te \<Rightarrow>
           Inr (\<lparr>train_set = tr, val_set = va, test_set = te\<rparr>, g'))"

text \<open>Lines 113 to 145: the body of the loop over the zipped sources.\<close>

definition split_source ::
  "('s, 'l::linorder, 'g) env \<Rightarrow> ('l \<times> int) list \<Rightarrow> string \<times> string \<times> int \<Rightarrow>
     's split_sets \<times> 'g \<Rightarrow> error + ('s split_sets \<times> 'g)" where
  "split_source env label_map src st =
     (case src of (spectral_path, label_path, p_int) \<Rightarrow>
      case load_spectra env spectral_path of None \<Rightarrow> Inl IOError | Some spectra \<Rightarrow>
      case load_labels env label_path of None \<Rightarrow> Inl IOError | Some ls \<Rightarrow>
      for_each (np_unique ls) (split_label env label_map spectra ls p_int) st)"

text \<open>
  \<open>zip\<close> of several lists stops with the shortest, as the nested \<open>zip\<close> here does.
\<close>

definition presplit_groups :: "config \<Rightarrow> (string \<times> string \<times> string \<times> string) list" where
  "presplit_groups cfg =
     zip (train_data_path cfg)
       (zip (train_labels_path cfg) (zip (test_data_path cfg) (test_labels_path cfg)))"

definition sources :: "config \<Rightarrow> (string \<times> string \<times> int) list" where
  "sources cfg = zip (spectral_dirs cfg) (zip (label_dirs cfg) (patient_intervals cfg))"

definition get_splits ::
  "('s, 'l::linorder, 'g) env \<Rightarrow> config \<Rightarrow> ('l \<times> int) list \<Rightarrow> 'g \<Rightarrow>
     error + ('s split_sets \<times> 'g)" where
  "get_splits env cfg label_map g =
     (if use_pre_split cfg then
        (case for_each (presplit_groups cfg) (presplit_group env label_map (seed cfg)) empty_sets of
           Inl e \<Rightarrow> Inl e
         | Inr sets \<Rightarrow> Inr (sets, g))
      else for_each (sources cfg) (split_source env label_map) (empty_sets, g))"

subsection \<open>The constructor, \<open>_create_dataloaders\<close> and \<open>_get_original_label\<close>\<close>

text \<open>
  \<open>DataLoader(dataset, batch_size=..., shuffle=...)\<close> of \<open>torch.utils.data\<close>, as far as
  its construction goes: with \<open>shuffle=True\<close> it builds a random sampler, which raises
  \<open>ValueError\<close> over a dataset of length zero, and then a batch sampler, which raises
  \<open>ValueError\<close> unless the batch size is positive. Iterating a loader (batching,
  reshuffling) is the library's and is not modelled.
\<close>

record 's DataLoader =
  dataset :: "'s SAMRamanDataset"
  loader_batch_size :: int
  shuffle :: bool

definition new_DataLoader :: "'s SAMRamanDataset \<Rightarrow> int \<Rightarrow> bool \<Rightarrow> error + 's DataLoader" where
  "new_DataLoader ds bs sh =
     (if sh \<and> dataset_len ds = 0 then Inl ValueError
      else if bs \<le> 0 then Inl ValueError
      else Inr \<lparr>dataset = ds, loader_batch_size = bs, shuffle = sh\<rparr>)"

text \<open>The object after construction.\<close>

record ('s, 'l) SAMRaman =
  label_map :: "('l \<times> int) list"
  inverse_map :: "(int \<times> 'l) list"
  splits :: "'s split_sets"
  train_loader :: "'s DataLoader"
  val_loader :: "'s DataLoader"
  test_loader :: "'s DataLoader"

definition make_dataset :: "'s split_set \<Rightarrow> 's SAMRamanDataset" where
  "make_dataset d = \<lparr>spectral_data = set_data d, labels = set_labels d\<rparr>"

text \<open>Lines 153 to 168: the three datasets, then the three loaders in this order.\<close>

definition create_dataloaders ::
  "'s split_sets \<Rightarrow> int \<Rightarrow> error + ('s DataLoader \<times> 's DataLoader \<times> 's DataLoader)" where
  "create_dataloaders sets bs =
     (case new_DataLoader (make_dataset (train_set sets)) bs True of
        Inl e \<Rightarrow> Inl e | Inr train_l \<Rightarrow>
      case new_DataLoader (make_dataset (val_set sets)) bs False of
        Inl e \<Rightarrow> Inl e | Inr val_l \<Rightarrow>
      case new_DataLoader (make_dataset (test_set sets)) bs False of
        Inl e \<Rightarrow> Inl e | Inr test_l \<Rightarrow>
      Inr (train_l, val_l, test_l))"

definition SAMRaman_init ::
  "('s, 'l::linorder, 'g) env \<Rightarrow> config \<Rightarrow> 'g \<Rightarrow> error + (('s, 'l) SAMRaman \<times> 'g)" where
  "SAMRaman_init env cfg g0 =
     (case np_random_seed env (seed cfg) of Inl e \<Rightarrow> Inl e | Inr g \<Rightarrow>
      case get_label_mapping env cfg of Inl e \<Rightarrow> Inl e | Inr lm \<Rightarrow>
      case get_splits env cfg lm g of Inl e \<Rightarrow> Inl e | Inr (sets, g') \<Rightarrow>
      case create_dataloaders sets (batch_size cfg) of
        Inl e \<Rightarrow> Inl e
      | Inr (train_l, val_l, test_l) \<Rightarrow>
          Inr (\<lparr>label_map = lm, inverse_map = invert_map lm, splits = sets,
                train_loader = train_l, val_loader = val_l, test_loader = test_l\<rparr>, g'))"

definition get_original_label :: "('s, 'l) SAMRaman \<Rightarrow> int \<Rightarrow> error + 'l" where
  "get_original_label self pred_idx = dict_get (inverse_map self) pred_idx"

section \<open>Vocabulary of the properties\<close>

text \<open>
  The definitions of this section are not code of the module: they name what the
  properties below talk about.
\<close>

text \<open>The real number a float stands for.\<close>

definition valof :: "float64 \<Rightarrow> real" where
  "valof x = of_int (mant x) * 2 powi expo x"

text \<open>
  The samples of all three sets, and a set after \<open>rows\<close> and as many copies of the code
  \<open>c\<close> have been appended to it.
\<close>

definition all_data :: "'s split_sets \<Rightarrow> 's list" where
  "all_data sets = set_data (train_set sets) @ set_data (val_set sets) @ set_data (test_set sets)"

definition extended :: "'s split_set \<Rightarrow> 's list \<Rightarrow> int \<Rightarrow> 's split_set" where
  "extended d rows c =
     d\<lparr>set_data := set_data d @ rows, set_labels := set_labels d @ replicate (length rows) c\<rparr>"

text \<open>
  The block of patient \<open>i\<close>, as lines 131, 137 and 143 slice it, and a set after the
  blocks of the patients \<open>js\<close> and \<open>p\<close> copies of the code for each have been appended.
\<close>

definition block_of :: "'s list \<Rightarrow> int \<Rightarrow> nat \<Rightarrow> 's list" where
  "block_of X p i = py_slice X (Some (int i * p)) (Some (int i * p + p))"

definition add_blocks :: "'s split_set \<Rightarrow> 's list \<Rightarrow> int \<Rightarrow> nat list \<Rightarrow> int \<Rightarrow> 's split_set" where
  "add_blocks d X p js c =
     d\<lparr>set_data := set_data d @ concat (map (block_of X p) js),
       set_labels := set_labels d @ replicate (length js * nat p) c\<rparr>"

text \<open>
  The rows of one label split into the leading whole patient blocks and the trailing
  remainder: \<open>len // p\<close> blocks of \<open>p\<close> rows, then the rest.
\<close>

definition label_blocks :: "'s list \<Rightarrow> int \<Rightarrow> 's list" where
  "label_blocks label_spectra p_int =
     take (nat (int (length label_spectra) div p_int) * nat p_int) label_spectra"

definition label_remainder :: "'s list \<Rightarrow> int \<Rightarrow> 's list" where
  "label_remainder label_spectra p_int =
     drop (nat (int (length label_spectra) div p_int) * nat p_int) label_spectra"

text \<open>
  The same over the labels of one source and over the zipped sources of a
  configuration, and the rows of the spectra files of those sources.
\<close>

definition source_blocks :: "('s, 'l::linorder, 'g) env \<Rightarrow> string \<times> string \<times> int \<Rightarrow> 's list" where
  "source_blocks env src =
     (case src of (spectral_path, label_path, p_int) \<Rightarrow>
      case load_spectra env spectral_path of None \<Rightarrow> [] | Some spectra \<Rightarrow>
      case load_labels env label_path of None \<Rightarrow> [] | Some ls \<Rightarrow>
      concat (map (\<lambda>l. label_blocks (mask_select spectra ls l) p_int) (np_unique ls)))"

definition source_remainder :: "('s, 'l::linorder, 'g) env \<Rightarrow> string \<times> string \<times> int \<Rightarrow> 's list" where
  "source_remainder env src =
     (case src of (spectral_path, label_path, p_int) \<Rightarrow>
      case load_spectra env spectral_path of None \<Rightarrow> [] | Some spectra \<Rightarrow>
      case load_labels env label_path of None \<Rightarrow> [] | Some ls \<Rightarrow>
      concat (map (\<lambda>l. label_remainder (mask_select spectra ls l) p_int) (np_unique ls)))"

definition source_samples :: "('s, 'l, 'g) env \<Rightarrow> string \<times> string \<times> int \<Rightarrow> 's list" where
  "source_samples env src =
     (case src of (spectral_path, label_path, p_int) \<Rightarrow>
      case load_spectra env spectral_path of None \<Rightarrow> [] | Some spectra \<Rightarrow> spectra)"

definition patient_blocks :: "('s, 'l::linorder, 'g) env \<Rightarrow> config \<Rightarrow> 's list" where
  "patient_blocks env cfg = concat (map (source_blocks env) (sources cfg))"

definition remainders :: "('s, 'l::linorder, 'g) env \<Rightarrow> config \<Rightarrow> 's list" where
  "remainders env cfg = concat (map (source_remainder env) (sources cfg))"

definition input_samples :: "('s, 'l, 'g) env \<Rightarrow> config \<Rightarrow> 's list" where
  "input_samples env cfg = concat (map (source_samples env) (sources cfg))"

text \<open>
  The patient blocks one by one: the blocks of one label, the blocks of a source each
  with the raw label of its rows, and the blocks of the zipped sources of a
  configuration.
\<close>

definition label_block_list :: "'s list \<Rightarrow> int \<Rightarrow> 's list list" where
  "label_block_list label_spectra p_int =
     map (block_of label_spectra p_int) [0..<nat (int (length label_spectra) div p_int)]"

definition source_block_list ::
  "('s, 'l::linorder, 'g) env \<Rightarrow> string \<times> string \<times> int \<Rightarrow> ('s list \<times> 'l) list" where
  "source_block_list env src =
     (case src of (spectral_path, label_path, p_int) \<Rightarrow>
      case load_spectra env spectral_path of None \<Rightarrow> [] | Some spectra \<Rightarrow>
      case load_labels env label_path of None \<Rightarrow> [] | Some ls \<Rightarrow>
      concat (map (\<lambda>l. map (\<lambda>b. (b, l)) (label_block_list (mask_select spectra ls l) p_int))
                (np_unique ls)))"

definition block_list :: "('s, 'l::linorder, 'g) env \<Rightarrow> config \<Rightarrow> ('s list \<times> 'l) list" where
  "block_list env cfg = concat (map (source_block_list env) (sources cfg))"

text \<open>
  The set that holds a sequence of blocks, each given as its rows, their raw label and a
  code: the rows of the blocks one after the other, and beside the rows of each block as
  many copies of its code. \<open>blocks_in lm sets A\<close>: the three sets hold sequences of
  blocks whose codes are those of the label map and which together are the blocks \<open>A\<close>,
  each as often as it is in \<open>A\<close>.
\<close>

definition built :: "('s list \<times> 'l \<times> int) list \<Rightarrow> 's split_set" where
  "built bs =
     \<lparr>set_data = concat (map fst bs),
      set_labels = concat (map (\<lambda>(rows, l, c). replicate (length rows) c) bs)\<rparr>"

definition blocks_in ::
  "('l \<times> int) list \<Rightarrow> 's split_sets \<Rightarrow> ('s list \<times> 'l) multiset \<Rightarrow> bool" where
  "blocks_in lm sets A =
     (\<exists>tb vb eb.
        train_set sets = built tb \<and> val_set sets = built vb \<and> test_set sets = built eb
      \<and> (\<forall>(rows, l, c) \<in> set (tb @ vb @ eb). dict_get lm l = Inr c)
      \<and> mset (map (\<lambda>(rows, l, c). (rows, l)) (tb @ vb @ eb)) = A)"

text \<open>
  The label file of every zipped source has one label per row of its spectra file.
\<close>

definition files_aligned :: "('s, 'l, 'g) env \<Rightarrow> config \<Rightarrow> bool" where
  "files_aligned env cfg =
     list_all (\<lambda>(spectral_path, label_path, p_int).
        map_option length (load_spectra env spectral_path)
          = map_option length (load_labels env label_path)) (sources cfg)"

text \<open>
  Row \<open>x\<close> of a source carries a raw label whose code is \<open>c\<close>; a set whose data and
  labels have the same length and pair up by \<open>R\<close>.
\<close>

definition row_with_code ::
  "('s, 'l, 'g) env \<Rightarrow> ('l \<times> int) list \<Rightarrow> string \<times> string \<times> int \<Rightarrow> 's \<Rightarrow> int \<Rightarrow> bool" where
  "row_with_code env lm src x c =
     (case src of (spectral_path, label_path, p_int) \<Rightarrow>
      case load_spectra env spectral_path of None \<Rightarrow> False | Some spectra \<Rightarrow>
      case load_labels env label_path of None \<Rightarrow> False | Some ls \<Rightarrow>
      list_ex (\<lambda>(x', l). x' = x \<and> dict_get lm l = Inr c) (zip spectra ls))"

definition paired :: "('s \<Rightarrow> int \<Rightarrow> bool) \<Rightarrow> 's split_set \<Rightarrow> bool" where
  "paired R d =
     (length (set_data d) = length (set_labels d)
      \<and> list_all (\<lambda>(x, c). R x c) (zip (set_data d) (set_labels d)))"

section \<open>Concrete inputs\<close>

text \<open>
  A small world to run the module in. Rows are numbered so that each can be told from
  every other. The generator stand-in reverses the array it is given.
\<close>

definition demo_spectra :: "string \<Rightarrow> nat list option" where
  "demo_spectra f =
     (if f = ''a'' then Some [0..<20]
      else if f = ''b'' then Some [100..<107]
      else if f = ''train1'' then Some [200..<208]
      else if f = ''test1'' then Some [208..<210]
      else if f = ''train2'' then Some [300..<308]
      else if f = ''test2'' then Some [308..<310]
      else None)"

definition demo_labels :: "string \<Rightarrow> nat list option" where
  "demo_labels f =
     (if f = ''a_labels'' then Some (replicate 20 5)
      else if f = ''b_labels'' then Some [1, 2, 1, 2, 1, 2, 1]
      else if f = ''train1_labels'' then Some [5, 5, 5, 5, 6, 6, 6, 6]
      else if f = ''test1_labels'' then Some [5, 6]
      else if f = ''train2_labels'' then Some [6, 6, 6, 6, 5, 5, 5, 5]
      else if f = ''test2_labels'' then Some [6, 5]
      else None)"

text \<open>
  The stand-in for the stratified \<open>train_test_split\<close> with \<open>test_size=0.25\<close>. It raises
  where sklearn raises: arrays of different length, no row left for training, a class
  with a single member, fewer rows than classes on either side. Otherwise the
  validation part has \<open>ceil(n / 4)\<close> rows in sklearn; here it is the last quarter of
  every class, which is the same number of rows per class whenever every class count is
  a multiple of four, as in the files above. Which rows of a class sklearn picks, and
  the order of both parts, depend on its generator; nothing below depends on either.
\<close>

definition demo_train_test_split ::
  "nat list \<Rightarrow> nat list \<Rightarrow> int \<Rightarrow> error + (nat list \<times> nat list \<times> nat list \<times> nat list)" where
  "demo_train_test_split d ls s =
     (let n = length d; n_test = (n + 3) div 4; n_train = n - n_test; classes = np_unique ls
      in if length ls \<noteq> n \<or> n_train = 0 \<or> list_ex (\<lambda>c. count_list ls c < 2) classes
            \<or> n_train < length classes \<or> n_test < length classes
         then Inl ValueError
         else
           let of_class = (\<lambda>c. filter (\<lambda>i. ls ! i = c) [0..<n]);
               val_idx = concat (map (\<lambda>c. drop (length (of_class c) - length (of_class c) div 4)
                                           (of_class c)) classes);
               train_idx = filter (\<lambda>i. i \<notin> set val_idx) [0..<n]
           in Inr (map (nth d) train_idx, map (nth d) val_idx,
                   map (nth ls) train_idx, map (nth ls) val_idx))"

definition demo_env :: "(nat, nat, nat) env" where
  "demo_env =
     \<lparr>load_spectra = demo_spectra, load_labels = demo_labels,
      np_random_seed = (\<lambda>s. if 0 \<le> s \<and> s < 2 ^ 32 then Inr (nat s) else Inl ValueError),
      np_random_permutation = (\<lambda>xs g. (rev xs, Suc g)),
      train_test_split = demo_train_test_split\<rparr>"

text \<open>One source, one label, ten patients of two samples.\<close>

definition demo_config :: config where
  "demo_config =
     \<lparr>spectral_dirs = [''a''], label_dirs = [''a_labels''], patient_intervals = [2],
      use_pre_split = False, train_data_path = [], train_labels_path = [],
      test_data_path = [], test_labels_path = [], batch_size = 16, seed = 42\<rparr>"

text \<open>Two sources with intervals that leave a remainder in each.\<close>

definition demo_two_sources :: config where
  "demo_two_sources =
     demo_config\<lparr>spectral_dirs := [''a'', ''b''], label_dirs := [''a_labels'', ''b_labels''],
       patient_intervals := [3, 2]\<rparr>"

text \<open>Two sources, one interval.\<close>

definition demo_unaligned :: config where
  "demo_unaligned =
     demo_config\<lparr>spectral_dirs := [''a'', ''b''], label_dirs := [''a_labels'', ''b_labels''],
       patient_intervals := [2]\<rparr>"

text \<open>
  Pre-split mode with two groups of paths, each with eight training rows in two classes
  of four and two test rows.
\<close>

definition demo_presplit :: config where
  "demo_presplit =
     demo_config\<lparr>use_pre_split := True,
       train_data_path := [''train1'', ''train2''],
       train_labels_path := [''train1_labels'', ''train2_labels''],
       test_data_path := [''test1'', ''test2''],
       test_labels_path := [''test1_labels'', ''test2_labels'']\<rparr>"

definition demo_dataset :: "nat SAMRamanDataset" where
  "demo_dataset = \<lparr>spectral_data = [10, 20, 30], labels = [0, 1, 1]\<rparr>"

section \<open>The label map\<close>

lemma dict_set_fresh: "k \<notin> fst ` set d \<Longrightarrow> dict_set d k v = d @ [(k, v)]"
  by (induction d) auto

lemma foldl_dict_set_distinct:
  "distinct (map fst (d @ kvs)) \<Longrightarrow> foldl (\<lambda>d (k, v). dict_set d k v) d kvs = d @ kvs"
proof (induction kvs arbitrary: d)
  case Nil
  then show ?case by simp
next
  case (Cons kv kvs)
  obtain k v where kv: "kv = (k, v)" by (cases kv)
  from Cons.prems have fresh: "k \<notin> fst ` set d" by (auto simp: kv)
  from Cons.prems have "distinct (map fst ((d @ [(k, v)]) @ kvs))" by (simp add: kv)
  from Cons.IH [OF this] show ?case by (simp add: kv dict_set_fresh [OF fresh])
qed

lemma dict_of_distinct: "distinct (map fst kvs) \<Longrightarrow> dict_of kvs = kvs"
  using foldl_dict_set_distinct [of "[]" kvs] by (simp add: dict_of_def)

lemma np_unique_props:
  "sorted_wrt (<) (np_unique xs)" "set (np_unique xs) = set xs" "distinct (np_unique xs)"
  by (simp_all add: np_unique_def strict_sorted_iff)

lemma swap_zip: "map (\<lambda>(a, b). (b, a)) (zip xs ys) = zip ys xs"
  by (induction xs ys rule: list_induct2') auto

lemma get_label_mapping_eq:
  "gather_labels env cfg = Inr ls \<Longrightarrow>
   get_label_mapping env cfg = Inr (zip (np_unique ls) (map int [0..<length (np_unique ls)]))"
  by (simp add: get_label_mapping_def enumerate_py_def swap_zip dict_of_distinct np_unique_props)

lemma invert_map_zip:
  "invert_map (zip us (map int [0..<length us])) = zip (map int [0..<length us]) us"
proof -
  have "distinct (map fst (zip (map int [0..<length us]) us))"
    by (simp add: distinct_map inj_on_def)
  then show ?thesis by (simp add: invert_map_def swap_zip dict_of_distinct)
qed

lemma get_label_mapping_cases:
  assumes "get_label_mapping env cfg = Inr lm"
  obtains ls where "gather_labels env cfg = Inr ls"
    and "lm = zip (np_unique ls) (map int [0..<length (np_unique ls)])"
proof (cases "gather_labels env cfg")
  case (Inl e)
  with assms show ?thesis by (simp add: get_label_mapping_def)
next
  case (Inr ls)
  with assms get_label_mapping_eq [OF Inr] that show ?thesis by simp
qed

lemma encode_nth:
  "distinct us \<Longrightarrow> i < length us \<Longrightarrow>
   dict_get (zip us (map int [0..<length us])) (us ! i) = Inr (int i)"
  using map_of_zip_nth [of us "map int [0..<length us]" i] by (simp add: dict_get_def)

lemma decode_nth:
  "i < length us \<Longrightarrow> dict_get (zip (map int [0..<length us]) us) (int i) = Inr (us ! i)"
proof -
  assume i: "i < length us"
  have d: "distinct (map int [0..<length us])" by (simp add: distinct_map inj_on_def)
  from i map_of_zip_nth [of "map int [0..<length us]" us i, OF _ d]
  show ?thesis by (simp add: dict_get_def)
qed

lemma decode_missing:
  "c \<notin> int ` {0..<length us} \<Longrightarrow> dict_get (zip (map int [0..<length us]) us) c = Inl KeyError"
proof -
  assume "c \<notin> int ` {0..<length us}"
  then have "c \<notin> set (map int [0..<length us])" by simp
  then have none: "map_of (zip (map int [0..<length us]) us) c = None"
    by (simp add: map_of_zip_is_None)
  show ?thesis unfolding dict_get_def none by simp
qed

text \<open>
  Claim C5. When the vocabulary is built from the labels \<open>ls\<close> of the configured label
  files, the codes of the label map are \<open>0, 1, \<dots>, num_classes - 1\<close> in this order, its
  raw labels are strictly ascending and are exactly the values that occur in \<open>ls\<close>, and
  every label of \<open>ls\<close> has a code that the inverse map decodes to that label.
\<close>

theorem label_map_contiguous_roundtrip:
  assumes "gather_labels env cfg = Inr ls" and "get_label_mapping env cfg = Inr lm"
  shows "map snd lm = map int [0..<length lm]
       \<and> sorted_wrt (<) (map fst lm) \<and> set (map fst lm) = set ls
       \<and> (\<forall>l \<in> set ls. \<exists>c. dict_get lm l = Inr c \<and> dict_get (invert_map lm) c = Inr l)"
proof -
  let ?us = "np_unique ls"
  from assms get_label_mapping_eq [OF assms(1)]
  have lm: "lm = zip ?us (map int [0..<length ?us])" by simp
  have "\<exists>c. dict_get lm l = Inr c \<and> dict_get (invert_map lm) c = Inr l" if "l \<in> set ls" for l
  proof -
    from that have "l \<in> set ?us" by (simp add: np_unique_props)
    then obtain i where i: "i < length ?us" "?us ! i = l" by (auto simp: in_set_conv_nth)
    from encode_nth [OF np_unique_props(3) i(1)] decode_nth [OF i(1)] i(2)
    show ?thesis by (auto simp: lm invert_map_zip)
  qed
  then show ?thesis by (simp add: lm np_unique_props)
qed

theorem label_map_contiguous_roundtrip_witness:
  "gather_labels demo_env demo_two_sources = Inr (replicate 20 5 @ [1, 2, 1, 2, 1, 2, 1])
   \<and> get_label_mapping demo_env demo_two_sources = Inr [(1, 0), (2, 1), (5, 2)]
   \<and> dict_get [(1::nat, 0::int), (2, 1), (5, 2)] 5 = Inr 2
   \<and> dict_get (invert_map [(1::nat, 0::int), (2, 1), (5, 2)]) 2 = Inr 5"
proof -
  let ?lm = "[(1::nat, 0::int), (2, 1), (5, 2)]"
  have h1: "gather_labels demo_env demo_two_sources = Inr (replicate 20 5 @ [1, 2, 1, 2, 1, 2, 1])"
    by code_simp
  have h2: "get_label_mapping demo_env demo_two_sources = Inr ?lm"
    by code_simp
  have "(5::nat) \<in> set (replicate 20 5 @ [1, 2, 1, 2, 1, 2, 1])" by simp
  with label_map_contiguous_roundtrip [OF h1 h2]
  obtain c where c: "dict_get ?lm 5 = Inr c" "dict_get (invert_map ?lm) c = Inr 5"
    by blast
  have "dict_get ?lm 5 = Inr 2" by (simp add: dict_get_def)
  with c have "c = 2" by simp
  with c h1 h2 show ?thesis by simp
qed

text \<open>
  Claim C9. On a constructed object, \<open>_get_original_label\<close> returns the raw label for
  every code that the label map assigns, and raises \<open>KeyError\<close> for every integer that
  is not such a code.
\<close>

theorem get_original_label_total:
  assumes "SAMRaman_init env cfg g0 = Inr (self, g')"
  shows "(\<forall>(l, c) \<in> set (label_map self). get_original_label self c = Inr l)
       \<and> (\<forall>c. c \<notin> snd ` set (label_map self) \<longrightarrow> get_original_label self c = Inl KeyError)"
proof -
  from assms obtain lm where glm: "get_label_mapping env cfg = Inr lm"
    and self: "label_map self = lm" "inverse_map self = invert_map lm"
    by (auto simp: SAMRaman_init_def split: sum.splits)
  from glm obtain ls where lm: "lm = zip (np_unique ls) (map int [0..<length (np_unique ls)])"
    by (rule get_label_mapping_cases)
  let ?us = "np_unique ls"
  have inv: "inverse_map self = zip (map int [0..<length ?us]) ?us"
    by (simp add: self lm invert_map_zip)
  have "get_original_label self c = Inr l" if "(l, c) \<in> set (label_map self)" for l c
  proof -
    from that obtain i where "i < length ?us" "l = ?us ! i" "c = int i"
      by (auto simp: self lm in_set_conv_nth)
    with decode_nth [of i ?us] show ?thesis by (simp add: get_original_label_def inv)
  qed
  moreover have "get_original_label self c = Inl KeyError" if "c \<notin> snd ` set (label_map self)" for c
  proof -
    have "map snd (zip ?us (map int [0..<length ?us])) = map int [0..<length ?us]"
      by (rule map_snd_zip) simp
    then have "set (map snd (label_map self)) = set (map int [0..<length ?us])"
      by (simp only: self lm)
    then have "snd ` set (label_map self) = int ` {0..<length ?us}" by simp
    then show ?thesis using that decode_missing [of c ?us]
      by (simp add: get_original_label_def inv)
  qed
  ultimately show ?thesis by auto
qed

theorem get_original_label_total_witness:
  "\<not> isl (SAMRaman_init demo_env demo_two_sources 0)
   \<and> get_original_label (fst (projr (SAMRaman_init demo_env demo_two_sources 0))) 2 = Inr 5
   \<and> get_original_label (fst (projr (SAMRaman_init demo_env demo_two_sources 0))) 3 = Inl KeyError"
proof -
  let ?r = "SAMRaman_init demo_env demo_two_sources 0"
  have ok: "\<not> isl ?r" by code_simp
  then obtain self g where h: "?r = Inr (self, g)" by (cases ?r) auto
  have "label_map (fst (projr ?r)) = [(1, 0), (2, 1), (5, 2)]" by code_simp
  then have lm: "label_map self = [(1, 0), (2, 1), (5, 2)]" by (simp add: h)
  from get_original_label_total [OF h]
  have "get_original_label self 2 = Inr 5" "get_original_label self 3 = Inl KeyError"
    by (auto simp: lm)
  with ok show ?thesis by (simp add: h)
qed

section \<open>The dataset wrapper\<close>

text \<open>
  Claim C8, as the code has it. \<open>__getitem__\<close> raises \<open>IndexError\<close> for every index
  \<open>idx \<ge> len\<close> and for every index \<open>idx < - len\<close>, where \<open>len\<close> is \<open>__len__()\<close>. (An
  index in \<open>[- len, 0)\<close> is not rejected: see the counterexample.)
\<close>

theorem getitem_out_of_range:
  "idx < - dataset_len self \<or> dataset_len self \<le> idx \<Longrightarrow> getitem self idx = Inl IndexError"
  by (auto simp: getitem_def py_getitem_def dataset_len_def split: sum.splits)

theorem getitem_out_of_range_witness:
  "dataset_len demo_dataset \<le> 3 \<and> getitem demo_dataset 3 = Inl IndexError"
proof -
  have h: "dataset_len demo_dataset \<le> 3" by (simp add: dataset_len_def demo_dataset_def)
  then have "3 < - dataset_len demo_dataset \<or> dataset_len demo_dataset \<le> 3" by simp
  from getitem_out_of_range [OF this] h show ?thesis by simp
qed

text \<open>
  The claim as stated fails: index \<open>-1\<close> is outside \<open>[0, 3)\<close>, and the wrapper returns
  its last pair.
\<close>

theorem getitem_negative_index_counterexample:
  "dataset_len demo_dataset = 3 \<and> getitem demo_dataset (- 1) = Inr ([30], 1)"
  by (simp add: dataset_len_def getitem_def py_getitem_def demo_dataset_def)

section \<open>The constructor\<close>

text \<open>
  Claim C7. The constructor seeds the global generator before it draws from it, so
  what it builds (label map, the three sets with their order, and the generator state
  it leaves) is a function of the configuration and the files alone: the state of the
  generator before the call has no influence.
\<close>

theorem construction_ignores_prior_rng:
  "SAMRaman_init env cfg g0 = SAMRaman_init env cfg g1"
  by (simp add: SAMRaman_init_def)

text \<open>
  Claim C3, as the code has it. Lists of unequal length raise nothing: \<open>_get_splits\<close>
  pairs them with \<open>zip\<close>, so it handles as many groups as the shortest list has entries
  and never reads the entries beyond that.
\<close>

theorem zip_stops_at_shortest:
  "get_splits env cfg lm g =
     get_splits env
       (cfg\<lparr>spectral_dirs := take (length (sources cfg)) (spectral_dirs cfg),
             label_dirs := take (length (sources cfg)) (label_dirs cfg),
             patient_intervals := take (length (sources cfg)) (patient_intervals cfg),
             train_data_path := take (length (presplit_groups cfg)) (train_data_path cfg),
             train_labels_path := take (length (presplit_groups cfg)) (train_labels_path cfg),
             test_data_path := take (length (presplit_groups cfg)) (test_data_path cfg),
             test_labels_path := take (length (presplit_groups cfg)) (test_labels_path cfg)\<rparr>)
       lm g"
  by (simp add: get_splits_def sources_def presplit_groups_def take_zip [symmetric])

text \<open>
  The claim as stated fails: with two spectral paths, two label paths and one patient
  interval the constructor returns an object (its three sets hold 14, 2 and 4 samples,
  so none of the loaders is built over an empty set).
\<close>

theorem unequal_lists_accepted_counterexample:
  "length (spectral_dirs demo_unaligned) = 2 \<and> length (label_dirs demo_unaligned) = 2
   \<and> length (patient_intervals demo_unaligned) = 1
   \<and> \<not> isl (SAMRaman_init demo_env demo_unaligned 0)"
  by code_simp

section \<open>Floats: rounding and the split boundaries\<close>

lemma round53_shape:
  assumes "0 \<le> mant x"
  shows "\<exists>q s. round53 x = Float q (expo x + int s) \<and> 0 \<le> q
           \<and> (2 ^ 53 - 1) * mant x \<le> 2 ^ 53 * (q * 2 ^ s)
           \<and> 2 ^ 53 * (q * 2 ^ s) \<le> (2 ^ 53 + 1) * mant x"
proof (cases "bitlen \<bar>mant x\<bar> \<le> 53")
  case True
  then have "round53 x = Float (mant x) (expo x + int 0)" by (simp add: round53_def)
  moreover have "(2 ^ 53 - 1) * mant x \<le> 2 ^ 53 * (mant x * 2 ^ 0)"
    "2 ^ 53 * (mant x * 2 ^ 0) \<le> (2 ^ 53 + 1) * mant x"
    using assms by simp_all
  ultimately show ?thesis using assms by blast
next
  case False
  define m where "m = mant x"
  define s where "s = nat (bitlen m - 53)"
  define P :: int where "P = 2 ^ s"
  define q where "q = m div P"
  define r where "r = m mod P"
  define q' where "q' = (if P < 2 * r \<or> (2 * r = P \<and> odd q) then q + 1 else q)"
  from assms have abs: "\<bar>mant x\<bar> = m" by (simp add: m_def)
  from False abs have big: "53 < bitlen m" by simp
  then have mpos: "0 < m" using bitlen_eq_zero_iff [of m] by (cases "0 < m") auto
  have Ppos: "0 < P" by (simp add: P_def)
  have "nat (bitlen m - 1) = 52 + s" using big by (simp add: s_def)
  with bitlen_bounds [OF mpos] have "2 ^ (52 + s) \<le> m" by simp
  then have lower: "2 ^ 52 * P \<le> m" by (simp add: P_def power_add)
  have decomp: "m = q * P + r" by (simp add: q_def r_def)
  have r: "0 \<le> r" "r < P" using Ppos by (simp_all add: r_def)
  have q0: "0 \<le> q" using mpos Ppos by (simp add: q_def pos_imp_zdiv_nonneg_iff)
  have rnd: "round53 x = Float q' (expo x + int s)"
    using False mpos
    by (simp add: round53_def abs Let_def s_def [symmetric] P_def [symmetric]
        q_def [symmetric] r_def [symmetric] q'_def m_def [symmetric])
  have q'0: "0 \<le> q'" using q0 by (simp add: q'_def)
  define t where "t = q * P"
  have t: "0 \<le> t" "m = t + r" using q0 Ppos decomp by (simp_all add: t_def)
  have bounds: "(2 ^ 53 - 1) * m \<le> 2 ^ 53 * (q' * P) \<and> 2 ^ 53 * (q' * P) \<le> (2 ^ 53 + 1) * m"
  proof (cases "P < 2 * r \<or> (2 * r = P \<and> odd q)")
    case True
    then have "q' = q + 1" unfolding q'_def by (simp only: if_True)
    then have "q' * P = t + P" by (simp add: t_def algebra_simps)
    moreover from True have "P \<le> 2 * r" by auto
    ultimately show ?thesis using t r lower by simp
  next
    case False
    then have "q' = q" unfolding q'_def by (simp only: if_False)
    then have "q' * P = t" by (simp add: t_def)
    moreover from False have "2 * r \<le> P" by auto
    ultimately show ?thesis using t r lower by simp
  qed
  from rnd q'0 bounds show ?thesis unfolding m_def P_def by blast
qed

lemma valof_round53:
  assumes "0 \<le> mant x"
  shows "0 \<le> mant (round53 x)"
    and "(2 ^ 53 - 1) * valof x \<le> 2 ^ 53 * valof (round53 x)"
    and "2 ^ 53 * valof (round53 x) \<le> (2 ^ 53 + 1) * valof x"
proof -
  from round53_shape [OF assms] obtain q s where
    rnd: "round53 x = Float q (expo x + int s)" and q: "0 \<le> q"
    and lo: "(2 ^ 53 - 1) * mant x \<le> 2 ^ 53 * (q * 2 ^ s)"
    and hi: "2 ^ 53 * (q * 2 ^ s) \<le> (2 ^ 53 + 1) * mant x"
    by blast
  let ?w = "(2::real) powi expo x"
  have w: "0 < ?w" by simp
  have v: "valof (round53 x) = of_int (q * 2 ^ s) * ?w"
    by (simp add: rnd valof_def power_int_add)
  have vx: "valof x = of_int (mant x) * ?w" by (simp add: valof_def)
  from q rnd show "0 \<le> mant (round53 x)" by simp
  from lo have "real_of_int ((2 ^ 53 - 1) * mant x) \<le> real_of_int (2 ^ 53 * (q * 2 ^ s))"
    by (simp only: of_int_le_iff)
  then have "(2 ^ 53 - 1) * real_of_int (mant x) \<le> 2 ^ 53 * real_of_int (q * 2 ^ s)" by simp
  from mult_right_mono [OF this, of ?w] w
  show "(2 ^ 53 - 1) * valof x \<le> 2 ^ 53 * valof (round53 x)"
    unfolding v vx by (simp only: mult.assoc less_imp_le)
  from hi have "real_of_int (2 ^ 53 * (q * 2 ^ s)) \<le> real_of_int ((2 ^ 53 + 1) * mant x)"
    by (simp only: of_int_le_iff)
  then have "2 ^ 53 * real_of_int (q * 2 ^ s) \<le> (2 ^ 53 + 1) * real_of_int (mant x)" by simp
  from mult_right_mono [OF this, of ?w] w
  show "2 ^ 53 * valof (round53 x) \<le> (2 ^ 53 + 1) * valof x"
    unfolding v vx by (simp only: mult.assoc less_imp_le)
qed

lemma py_int_floor:
  assumes "0 \<le> mant x"
  shows "py_int x = \<lfloor>valof x\<rfloor>"
proof (cases "0 \<le> expo x")
  case True
  then have "(2::real) powi expo x = 2 ^ nat (expo x)" by (simp add: power_int_def)
  then have "valof x = of_int (mant x * 2 ^ nat (expo x))" by (simp add: valof_def)
  then have "\<lfloor>valof x\<rfloor> = mant x * 2 ^ nat (expo x)" by (simp only: floor_of_int)
  then show ?thesis using True by (simp add: py_int_def)
next
  case False
  then have "(2::real) powi expo x = inverse (2 ^ nat (- expo x))"
    by (simp add: power_int_def power_inverse del: inverse_eq_divide_numeral)
  then have "valof x = of_int (mant x) / of_int (2 ^ nat (- expo x))"
    by (simp add: valof_def divide_inverse)
  then have "\<lfloor>valof x\<rfloor> = mant x div 2 ^ nat (- expo x)"
    by (simp only: floor_divide_of_int_eq)
  moreover have "py_int x = mant x div 2 ^ nat (- expo x)"
  proof (cases "mant x = 0")
    case True
    then show ?thesis using False by (simp add: py_int_def)
  next
    case nz: False
    with assms have "0 < mant x" by simp
    then show ?thesis using False by (simp add: py_int_def)
  qed
  ultimately show ?thesis by simp
qed

lemma cumulative_fraction: "float_add train_split validation_split = Float 7656119366529843 (- 53)"
  by code_simp

text \<open>
  The rounding is visible in the boundaries: \<open>0.7 * 90\<close> is the double just below 63.
\<close>

lemma split_ends_90: "split_ends 90 = Inr (62, 76)"
  by code_simp

text \<open>
  Both products are rounded with a relative error of at most \<open>2 ^ -53\<close>, which is far
  less than the distance between the two constants, so the boundaries are ordered.
\<close>

lemma split_ends_ordered:
  assumes "split_ends n = Inr (a, b)" and "0 \<le> n"
  shows "0 \<le> a \<and> a \<le> b"
proof -
  from assms(1) obtain fn where fn: "float_of_int n = Inr fn"
    and a: "a = py_int (float_mul train_split fn)"
    and b: "b = py_int (float_mul (float_add train_split validation_split) fn)"
    by (auto simp: split_ends_def split: sum.splits)
  from fn have "fn = round53 (Float n 0)" by (simp add: float_of_int_def Let_def split: if_splits)
  with valof_round53(1) [of "Float n 0"] assms(2) have M: "0 \<le> mant fn" by simp
  let ?w = "(2::real) powi (- 53 + expo fn)"
  let ?V = "real_of_int (mant fn) * ?w"
  have V: "0 \<le> ?V" using M by simp
  let ?x1 = "Float (3152519739159347 * mant fn) (- 52 + expo fn)"
  let ?x2 = "Float (7656119366529843 * mant fn) (- 53 + expo fn)"
  have a': "a = py_int (round53 ?x1)" by (simp add: a float_mul_def train_split_def)
  have b': "b = py_int (round53 ?x2)" by (simp add: b float_mul_def cumulative_fraction)
  have m1: "0 \<le> mant ?x1" and m2: "0 \<le> mant ?x2" using M by simp_all
  have "(2::real) powi (- 52 + expo fn) = 2 powi (1 + (- 53 + expo fn))" by simp
  also have "\<dots> = 2 * ?w" by (subst power_int_add) simp_all
  finally have w1: "(2::real) powi (- 52 + expo fn) = 2 * ?w" .
  have "valof ?x1 = of_int (3152519739159347 * mant fn) * (2 powi (- 52 + expo fn))"
    by (simp only: valof_def float64.sel)
  also have "\<dots> = of_int (3152519739159347 * mant fn) * (2 * ?w)" by (simp only: w1)
  also have "\<dots> = 6305039478318694 * ?V" by simp
  finally have v1: "valof ?x1 = 6305039478318694 * ?V" .
  have v2: "valof ?x2 = 7656119366529843 * ?V" by (simp add: valof_def)
  from valof_round53(3) [OF m1] have "2 ^ 53 * valof (round53 ?x1) \<le> (2 ^ 53 + 1) * (6305039478318694 * ?V)"
    by (simp only: v1)
  moreover from valof_round53(2) [OF m2] have "(2 ^ 53 - 1) * (7656119366529843 * ?V) \<le> 2 ^ 53 * valof (round53 ?x2)"
    by (simp only: v2)
  moreover have "(2 ^ 53 + 1) * (6305039478318694 * ?V) \<le> (2 ^ 53 - 1) * (7656119366529843 * ?V)"
    using V by simp
  ultimately have "2 ^ 53 * valof (round53 ?x1) \<le> 2 ^ 53 * valof (round53 ?x2)" by linarith
  then have le: "valof (round53 ?x1) \<le> valof (round53 ?x2)" by simp
  have "0 \<le> valof (round53 ?x1)"
    using valof_round53(1) [OF m1] by (simp add: valof_def)
  then have "0 \<le> \<lfloor>valof (round53 ?x1)\<rfloor>" by simp
  moreover from le have "\<lfloor>valof (round53 ?x1)\<rfloor> \<le> \<lfloor>valof (round53 ?x2)\<rfloor>" by (rule floor_mono)
  ultimately show ?thesis
    using py_int_floor [OF valof_round53(1) [OF m1]] py_int_floor [OF valof_round53(1) [OF m2]]
    by (simp add: a' b')
qed

section \<open>Generation mode\<close>

lemma py_slice_nonneg:
  assumes "0 \<le> a" and "0 \<le> b"
  shows "py_slice xs None (Some a) = take (nat a) xs"
    and "py_slice xs (Some a) (Some b) = drop (nat a) (take (nat b) xs)"
    and "py_slice xs (Some b) None = drop (nat b) xs"
  using assms by (auto simp: py_slice_def slice_bound_def min_def Let_def)

lemma py_slice_Nil [simp]: "py_slice [] lo hi = []"
  by (simp add: py_slice_def)

lemma split_patients_append:
  assumes "0 \<le> a" and "a \<le> b" and "split_patients idxs a b = (tr, va, te)"
  shows "tr @ va @ te = idxs"
proof -
  from assms have b: "0 \<le> b" by simp
  have "take (nat a) idxs = take (nat a) (take (nat b) idxs)" using assms by (simp add: min_def)
  then have "take (nat a) idxs @ drop (nat a) (take (nat b) idxs) = take (nat b) idxs"
    by (simp only: append_take_drop_id)
  then have "take (nat a) idxs @ drop (nat a) (take (nat b) idxs) @ drop (nat b) idxs = idxs"
    by (simp only: append_assoc [symmetric] append_take_drop_id)
  with assms(3) show ?thesis
    by (auto simp: split_patients_def py_slice_nonneg [OF assms(1) b] py_slice_nonneg(3) [OF b b])
qed

lemma split_patients_Nil: "split_patients [] a b = ([], [], [])"
  by (simp add: split_patients_def)

lemma block_slice:
  assumes "0 < p" and "i < length X div nat p"
  shows "py_slice X (Some (int i * p)) (Some (int i * p + p)) = take (nat p) (drop (i * nat p) X)"
proof -
  let ?P = "nat p"
  from assms(1) have p: "p = int ?P" by simp
  from assms have "Suc i * ?P \<le> (length X div ?P) * ?P" by (intro mult_le_mono1) simp
  also have "\<dots> \<le> length X" by simp
  finally have le: "i * ?P + ?P \<le> length X" by simp
  have lo: "0 \<le> int i * p" using assms(1) by simp
  have hi: "0 \<le> int i * p + p" using assms(1) by simp
  have n1: "nat (int i * p) = i * ?P" using assms(1) by (simp add: nat_mult_distrib)
  have n2: "nat (int i * p + p) = i * ?P + ?P" using assms(1) by (simp add: nat_add_distrib nat_mult_distrib)
  show ?thesis
    by (simp add: py_slice_nonneg(2) [OF lo hi] n1 n2 drop_take)
qed

lemma concat_blocks:
  "concat (map (\<lambda>i. take P (drop (i * P) X)) [0..<n]) = take (n * P) X"
proof (induction n)
  case 0
  then show ?case by simp
next
  case (Suc n)
  have "take (n * P + P) X = take (n * P) X @ take P (drop (n * P) X)" by (rule take_add)
  with Suc show ?case by (simp add: add.commute)
qed

lemma mset_concat_map_cong:
  assumes "mset xs = mset ys"
  shows "mset (concat (map f xs)) = mset (concat (map f ys))"
proof -
  have "mset (concat (map f zs)) = sum_mset (image_mset (\<lambda>z. mset (f z)) (mset zs))" for zs
    by (induction zs) simp_all
  with assms show ?thesis by simp
qed

lemma length_concat_blocks:
  assumes "\<And>i. i \<in> set idxs \<Longrightarrow> length (f i) = P"
  shows "length (concat (map f idxs)) = length idxs * P"
  using assms by (induction idxs) simp_all

lemma for_each_add_patient_eq:
  assumes "for_each idxs (add_patient lm X p l) d = Inr d'"
  shows "\<exists>c. d' = d\<lparr>set_data := set_data d @ concat (map (block_of X p) idxs),
                     set_labels := set_labels d @ replicate (length idxs * nat p) c\<rparr>
            \<and> (idxs \<noteq> [] \<longrightarrow> dict_get lm l = Inr c)"
  using assms
proof (induction idxs arbitrary: d)
  case Nil
  then show ?case by simp
next
  case (Cons i idxs)
  from Cons.prems obtain c where c: "dict_get lm l = Inr c"
    by (auto simp: add_patient_def split: sum.splits)
  let ?d1 = "d\<lparr>set_data := set_data d @ block_of X p i,
               set_labels := set_labels d @ replicate (nat p) c\<rparr>"
  have step: "add_patient lm X p l i d = Inr ?d1" by (simp add: add_patient_def c block_of_def)
  from Cons.prems have rest: "for_each idxs (add_patient lm X p l) ?d1 = Inr d'"
    by (simp only: for_each.simps step sum.case)
  from Cons.IH [OF rest] obtain c' where
    d': "d' = ?d1\<lparr>set_data := set_data ?d1 @ concat (map (block_of X p) idxs),
                   set_labels := set_labels ?d1 @ replicate (length idxs * nat p) c'\<rparr>"
    and c': "idxs \<noteq> [] \<longrightarrow> dict_get lm l = Inr c'"
    by blast
  have "replicate (length idxs * nat p) c' = replicate (length idxs * nat p) c"
    using c c' by (cases idxs) auto
  with d' have "d' = d\<lparr>set_data := set_data d @ concat (map (block_of X p) (i # idxs)),
                        set_labels := set_labels d @ replicate (length (i # idxs) * nat p) c\<rparr>"
    by (simp add: replicate_add [symmetric])
  with c show ?case by blast
qed

lemma block_of_full:
  assumes "0 < p" and "i < length X div nat p"
  shows "block_of X p i = take (nat p) (drop (i * nat p) X)"
    and "length (block_of X p i) = nat p"
proof -
  show eq: "block_of X p i = take (nat p) (drop (i * nat p) X)"
    unfolding block_of_def using assms by (rule block_slice)
  from assms have "Suc i * nat p \<le> (length X div nat p) * nat p" by (intro mult_le_mono1) simp
  also have "\<dots> \<le> length X" by simp
  finally have "i * nat p + nat p \<le> length X" by simp
  then show "length (block_of X p i) = nat p" by (simp add: eq)
qed

lemma num_patients_nat:
  "0 < p \<Longrightarrow> nat (int (length X) div p) = length X div nat p"
  by (metis nat_int nat_0_le order_less_imp_le zdiv_int)

lemma blocks_of_permutation:
  assumes "p \<noteq> 0" and "mset idxs = mset [0..<nat (int (length X) div p)]"
  shows "mset (concat (map (block_of X p) idxs)) = mset (label_blocks X p)"
    and "\<And>i. i \<in> set idxs \<Longrightarrow> length (block_of X p i) = nat p"
proof -
  let ?n = "nat (int (length X) div p)"
  have "mset (concat (map (block_of X p) idxs)) = mset (label_blocks X p)
      \<and> (\<forall>i \<in> set idxs. length (block_of X p i) = nat p)"
  proof (cases "0 < p")
    case True
    then have n: "?n = length X div nat p" by (rule num_patients_nat)
    have meq: "map (block_of X p) [0..<?n] = map (\<lambda>i. take (nat p) (drop (i * nat p) X)) [0..<?n]"
      by (simp add: n block_of_full(1) [OF True])
    have "concat (map (block_of X p) [0..<?n]) = take (?n * nat p) X"
      unfolding meq by (rule concat_blocks)
    then have "concat (map (block_of X p) [0..<?n]) = label_blocks X p"
      by (simp only: label_blocks_def)
    with mset_concat_map_cong [OF assms(2), of "block_of X p"]
    have "mset (concat (map (block_of X p) idxs)) = mset (label_blocks X p)" by simp
    moreover have "length (block_of X p i) = nat p" if "i \<in> set idxs" for i
    proof -
      from that have "i \<in># mset idxs" by simp
      then have "i < ?n" by (simp add: assms(2) del: set_mset_mset)
      then show ?thesis using block_of_full(2) [OF True] by (simp add: n)
    qed
    ultimately show ?thesis by blast
  next
    case False
    with assms(1) have neg: "p < 0" by simp
    then have "int (length X) div p \<le> 0" by (simp add: div_nonneg_neg_le0)
    then have "?n = 0" by simp
    with assms(2) have "idxs = []" by simp
    then show ?thesis using \<open>?n = 0\<close> by (simp add: label_blocks_def)
  qed
  then show "mset (concat (map (block_of X p) idxs)) = mset (label_blocks X p)"
    and "\<And>i. i \<in> set idxs \<Longrightarrow> length (block_of X p i) = nat p" by blast+
qed

lemma split_label_extends:
  assumes perm: "\<And>xs g. mset (fst (np_random_permutation env xs g)) = mset xs"
    and ok: "split_label env lm spectra ls p l (sets, g) = Inr (sets', g')"
  shows "\<exists>tr va te c.
           train_set sets' = extended (train_set sets) tr c
         \<and> val_set sets' = extended (val_set sets) va c
         \<and> test_set sets' = extended (test_set sets) te c
         \<and> mset (tr @ va @ te) = mset (label_blocks (mask_select spectra ls l) p)
         \<and> (tr @ va @ te \<noteq> [] \<longrightarrow> dict_get lm l = Inr c)"
    and "length ls = length spectra" and "p \<noteq> 0"
proof -
  let ?X = "mask_select spectra ls l"
  let ?n = "int (length ?X) div p"
  from ok show len: "length ls = length spectra" and p: "p \<noteq> 0"
    by (auto simp: split_label_def split: if_splits)
  obtain idxs g0 where pm: "np_random_permutation env (np_arange ?n) g = (idxs, g0)"
    by (cases "np_random_permutation env (np_arange ?n) g")
  from perm [of "np_arange ?n" g] pm have idxs: "mset idxs = mset [0..<nat ?n]"
    by (simp add: np_arange_def)
  from ok len p pm obtain a b where ends: "split_ends ?n = Inr (a, b)"
    by (auto simp: split_label_def Let_def split: sum.splits)
  obtain tri vai tei where sp: "split_patients idxs a b = (tri, vai, tei)"
    by (cases "split_patients idxs a b")
  from ok len p pm ends sp obtain tr' va' te' where
    ftr: "for_each tri (add_patient lm ?X p l) (train_set sets) = Inr tr'"
    and fva: "for_each vai (add_patient lm ?X p l) (val_set sets) = Inr va'"
    and fte: "for_each tei (add_patient lm ?X p l) (test_set sets) = Inr te'"
    and res: "sets' = \<lparr>train_set = tr', val_set = va', test_set = te'\<rparr>"
    by (auto simp: split_label_def Let_def split: sum.splits)
  have app: "tri @ vai @ tei = idxs"
  proof (cases "idxs = []")
    case True
    with sp show ?thesis by (simp add: split_patients_Nil)
  next
    case False
    with idxs have "0 \<le> ?n" by (cases "0 \<le> ?n") auto
    from split_ends_ordered [OF ends this] sp show ?thesis
      by (auto intro: split_patients_append)
  qed
  from blocks_of_permutation [OF p idxs]
  have blocks: "mset (concat (map (block_of ?X p) idxs)) = mset (label_blocks ?X p)"
    and blen: "\<And>i. i \<in> set idxs \<Longrightarrow> length (block_of ?X p i) = nat p" by blast+
  define c0 where "c0 = (case dict_get lm l of Inr c \<Rightarrow> c | Inl e \<Rightarrow> 0)"
  have ext: "d' = extended d (concat (map (block_of ?X p) is)) c0
             \<and> (is \<noteq> [] \<longrightarrow> dict_get lm l = Inr c0)"
    if "for_each is (add_patient lm ?X p l) d = Inr d'" and "set is \<subseteq> set idxs" for "is" d d'
  proof -
    from for_each_add_patient_eq [OF that(1)] obtain c where
      d': "d' = d\<lparr>set_data := set_data d @ concat (map (block_of ?X p) is),
                   set_labels := set_labels d @ replicate (length is * nat p) c\<rparr>"
      and c: "is \<noteq> [] \<longrightarrow> dict_get lm l = Inr c" by blast
    have "replicate (length is * nat p) c = replicate (length is * nat p) c0"
      using c by (cases "is") (auto simp: c0_def)
    moreover have "length (concat (map (block_of ?X p) is)) = length is * nat p"
      using that(2) blen by (intro length_concat_blocks) auto
    ultimately show ?thesis using d' c by (cases "is") (auto simp: extended_def c0_def)
  qed
  from app have sub: "set tri \<subseteq> set idxs" "set vai \<subseteq> set idxs" "set tei \<subseteq> set idxs" by auto
  let ?tr = "concat (map (block_of ?X p) tri)"
  let ?va = "concat (map (block_of ?X p) vai)"
  let ?te = "concat (map (block_of ?X p) tei)"
  have cat: "?tr @ ?va @ ?te = concat (map (block_of ?X p) idxs)"
    by (simp add: app [symmetric])
  have "train_set sets' = extended (train_set sets) ?tr c0"
    "val_set sets' = extended (val_set sets) ?va c0"
    "test_set sets' = extended (test_set sets) ?te c0"
    using ext [OF ftr sub(1)] ext [OF fva sub(2)] ext [OF fte sub(3)] by (simp_all add: res)
  moreover have "mset (?tr @ ?va @ ?te) = mset (label_blocks ?X p)"
    by (simp only: cat blocks)
  moreover have "?tr @ ?va @ ?te \<noteq> [] \<longrightarrow> dict_get lm l = Inr c0"
    using ext [OF ftr sub(1)] ext [OF fva sub(2)] ext [OF fte sub(3)] by auto
  ultimately show "\<exists>tr va te c.
           train_set sets' = extended (train_set sets) tr c
         \<and> val_set sets' = extended (val_set sets) va c
         \<and> test_set sets' = extended (test_set sets) te c
         \<and> mset (tr @ va @ te) = mset (label_blocks (mask_select spectra ls l) p)
         \<and> (tr @ va @ te \<noteq> [] \<longrightarrow> dict_get lm l = Inr c)"
    by blast
qed

lemma for_each_accum:
  fixes M :: "'st \<Rightarrow> 'b::comm_monoid_add"
  assumes "\<And>x s s'. x \<in> set xs \<Longrightarrow> body x s = Inr s' \<Longrightarrow> M s' = M s + F x"
    and "for_each xs body st = Inr st'"
  shows "M st' = M st + sum_list (map F xs)"
  using assms
proof (induction xs arbitrary: st)
  case Nil
  then show ?case by simp
next
  case (Cons x xs)
  from Cons.prems(2) obtain s1 where s1: "body x st = Inr s1" and rest: "for_each xs body s1 = Inr st'"
    by (auto split: sum.splits)
  from Cons.prems(1) [of x st s1] s1 have "M s1 = M st + F x" by simp
  moreover from Cons.IH [OF _ rest] Cons.prems(1) have "M st' = M s1 + sum_list (map F xs)" by simp
  ultimately show ?case by (simp add: add.assoc)
qed

lemma for_each_invariant:
  assumes "I st"
    and "\<And>x s s'. x \<in> set xs \<Longrightarrow> I s \<Longrightarrow> body x s = Inr s' \<Longrightarrow> I s'"
    and "for_each xs body st = Inr st'"
  shows "I st'"
  using assms
proof (induction xs arbitrary: st)
  case Nil
  then show ?case by simp
next
  case (Cons x xs)
  from Cons.prems(3) obtain s1 where s1: "body x st = Inr s1" and rest: "for_each xs body s1 = Inr st'"
    by (auto split: sum.splits)
  from Cons.prems(2) [of x st s1] Cons.prems(1) s1 have s1_ok: "I s1" by simp
  show ?case
  proof (rule Cons.IH [OF s1_ok _ rest])
    fix y s s'
    assume "y \<in> set xs" "I s" "body y s = Inr s'"
    then show "I s'" using Cons.prems(2) [of y s s'] by simp
  qed
qed

lemma sum_list_mset_concat: "sum_list (map (\<lambda>x. mset (f x)) xs) = mset (concat (map f xs))"
  by (induction xs) simp_all

lemma all_data_extended:
  assumes "train_set sets' = extended (train_set sets) tr c"
    and "val_set sets' = extended (val_set sets) va c"
    and "test_set sets' = extended (test_set sets) te c"
  shows "mset (all_data sets') = mset (all_data sets) + mset (tr @ va @ te)"
  using assms by (simp add: all_data_def extended_def)

lemma split_source_blocks:
  assumes perm: "\<And>xs g. mset (fst (np_random_permutation env xs g)) = mset xs"
    and ok: "split_source env lm src st = Inr st'"
  shows "mset (all_data (fst st')) = mset (all_data (fst st)) + mset (source_blocks env src)"
proof -
  obtain sp lp p where src: "src = (sp, lp, p)" by (cases src)
  from ok obtain spectra ls where ld: "load_spectra env sp = Some spectra" "load_labels env lp = Some ls"
    and loop: "for_each (np_unique ls) (split_label env lm spectra ls p) st = Inr st'"
    by (auto simp: split_source_def src split: option.splits)
  have step: "mset (all_data (fst s')) = mset (all_data (fst s)) + mset (label_blocks (mask_select spectra ls l) p)"
    if "split_label env lm spectra ls p l s = Inr s'" for l s s'
  proof -
    obtain sets g sets' g' where s: "s = (sets, g)" "s' = (sets', g')" by (cases s, cases s')
    from split_label_extends(1) [OF perm that [unfolded s]] all_data_extended [of sets' sets]
    show ?thesis by (auto simp: s)
  qed
  from for_each_accum [where M = "\<lambda>s. mset (all_data (fst s))"
      and F = "\<lambda>l. mset (label_blocks (mask_select spectra ls l) p)", OF _ loop] step
  have "mset (all_data (fst st')) = mset (all_data (fst st))
          + sum_list (map (\<lambda>l. mset (label_blocks (mask_select spectra ls l) p)) (np_unique ls))"
    by blast
  then show ?thesis by (simp add: sum_list_mset_concat source_blocks_def src ld)
qed

lemma get_splits_blocks:
  assumes perm: "\<And>xs g. mset (fst (np_random_permutation env xs g)) = mset xs"
    and gen: "\<not> use_pre_split cfg"
    and ok: "get_splits env cfg lm g = Inr (sets, g')"
  shows "mset (all_data sets) = mset (patient_blocks env cfg)"
proof -
  from ok gen have loop: "for_each (sources cfg) (split_source env lm) (empty_sets, g) = Inr (sets, g')"
    by (simp add: get_splits_def)
  from for_each_accum [where M = "\<lambda>s. mset (all_data (fst s))"
      and F = "\<lambda>src. mset (source_blocks env src)", OF _ loop] split_source_blocks [OF perm]
  have "mset (all_data sets) = mset (all_data empty_sets)
          + sum_list (map (\<lambda>src. mset (source_blocks env src)) (sources cfg))"
    by fastforce
  then show ?thesis
    by (simp add: sum_list_mset_concat patient_blocks_def all_data_def empty_sets_def empty_set_def)
qed

lemma sum_filter_mset_distinct:
  "distinct us \<Longrightarrow>
   sum_list (map (\<lambda>l. filter_mset (\<lambda>x. f x = l) M) us) = filter_mset (\<lambda>x. f x \<in> set us) M"
proof (induction us)
  case Nil
  then show ?case by simp
next
  case (Cons u us)
  have "filter_mset (\<lambda>x. f x = u) M + filter_mset (\<lambda>x. f x \<in> set us) M
        = filter_mset (\<lambda>x. f x = u \<or> f x \<in> set us) M"
    using Cons.prems by (intro multiset_eqI) auto
  with Cons show ?case by simp
qed

lemma mset_mask_select:
  "mset (mask_select spectra ls l) = image_mset fst (filter_mset (\<lambda>x. snd x = l) (mset (zip spectra ls)))"
  by (simp add: mask_select_def split_def flip: mset_filter mset_map)

lemma sum_list_image_mset:
  "sum_list (map (\<lambda>l. image_mset f (A l)) us) = image_mset f (sum_list (map A us))"
  by (induction us) simp_all

lemma mask_select_partition:
  assumes "length ls = length spectra"
  shows "sum_list (map (\<lambda>l. mset (mask_select spectra ls l)) (np_unique ls)) = mset spectra"
proof -
  let ?Z = "mset (zip spectra ls)"
  have "sum_list (map (\<lambda>l. mset (mask_select spectra ls l)) (np_unique ls))
        = image_mset fst (sum_list (map (\<lambda>l. filter_mset (\<lambda>x. snd x = l) ?Z) (np_unique ls)))"
    by (simp only: mset_mask_select sum_list_image_mset)
  also have "\<dots> = image_mset fst (filter_mset (\<lambda>x. snd x \<in> set (np_unique ls)) ?Z)"
    by (simp add: sum_filter_mset_distinct np_unique_props)
  also have "filter_mset (\<lambda>x. snd x \<in> set (np_unique ls)) ?Z = ?Z"
    by (rule filter_mset_eq_conv [THEN iffD2]) (auto simp: np_unique_props dest: set_zip_rightD)
  also have "image_mset fst ?Z = mset (map fst (zip spectra ls))" by simp
  also have "\<dots> = mset spectra" using assms by simp
  finally show ?thesis .
qed

lemma label_blocks_remainder:
  "label_blocks X p @ label_remainder X p = X"
  by (simp add: label_blocks_def label_remainder_def)

lemma length_label_remainder:
  assumes "0 < p"
  shows "int (length (label_remainder X p)) = int (length X) mod p"
proof -
  let ?P = "nat p"
  from assms have n: "nat (int (length X) div p) = length X div ?P" by (rule num_patients_nat)
  have "length (label_remainder X p) = length X - (length X div ?P) * ?P"
    by (simp add: label_remainder_def n)
  also have "\<dots> = length X mod ?P" by (simp add: minus_div_mult_eq_mod)
  finally have "int (length (label_remainder X p)) = int (length X mod ?P)" by simp
  also have "\<dots> = int (length X) mod int ?P" by (simp add: zmod_int)
  finally show ?thesis using assms by simp
qed

lemma source_cover:
  assumes "map_option length (load_spectra env sp) = map_option length (load_labels env lp)"
  shows "mset (source_blocks env (sp, lp, p)) + mset (source_remainder env (sp, lp, p))
         = mset (source_samples env (sp, lp, p))"
proof (cases "load_spectra env sp")
  case None
  then show ?thesis by (simp add: source_blocks_def source_remainder_def source_samples_def)
next
  case (Some spectra)
  with assms obtain ls where ls: "load_labels env lp = Some ls" "length ls = length spectra"
    by (cases "load_labels env lp") auto
  let ?X = "\<lambda>l. mask_select spectra ls l"
  have "mset (source_blocks env (sp, lp, p)) + mset (source_remainder env (sp, lp, p))
        = sum_list (map (\<lambda>l. mset (label_blocks (?X l) p)) (np_unique ls))
          + sum_list (map (\<lambda>l. mset (label_remainder (?X l) p)) (np_unique ls))"
    by (simp add: source_blocks_def source_remainder_def Some ls sum_list_mset_concat)
  also have "\<dots> = sum_list (map (\<lambda>l. mset (label_blocks (?X l) p) + mset (label_remainder (?X l) p)) (np_unique ls))"
    by (simp add: sum_list_addf)
  also have "\<dots> = sum_list (map (\<lambda>l. mset (?X l)) (np_unique ls))"
    by (simp only: mset_append [symmetric] label_blocks_remainder)
  also have "\<dots> = mset spectra" using ls(2) by (rule mask_select_partition)
  finally show ?thesis by (simp add: source_samples_def Some)
qed

lemma sources_cover:
  assumes "files_aligned env cfg"
  shows "mset (patient_blocks env cfg) + mset (remainders env cfg) = mset (input_samples env cfg)"
proof -
  have "list_all (\<lambda>(sp, lp, p). map_option length (load_spectra env sp)
            = map_option length (load_labels env lp)) srcs \<Longrightarrow>
        mset (concat (map (source_blocks env) srcs)) + mset (concat (map (source_remainder env) srcs))
        = mset (concat (map (source_samples env) srcs))" for srcs
  proof (induction srcs)
    case Nil
    then show ?case by simp
  next
    case (Cons src srcs)
    obtain sp lp p where src: "src = (sp, lp, p)" by (cases src)
    from Cons.prems have "map_option length (load_spectra env sp) = map_option length (load_labels env lp)"
      by (simp add: src)
    from source_cover [OF this, of p] Cons show ?case by (simp add: src ac_simps)
  qed
  with assms show ?thesis
    by (simp add: files_aligned_def patient_blocks_def remainders_def input_samples_def)
qed

lemma init_generation:
  assumes "SAMRaman_init env cfg g0 = Inr (self, g')"
  obtains g where "get_splits env cfg (label_map self) g = Inr (splits self, g')"
    and "get_label_mapping env cfg = Inr (label_map self)"
  using assms by (auto simp: SAMRaman_init_def split: sum.splits)

text \<open>
  The same loops, block by block: every pass of the loop over the labels adds to each
  set the blocks of one range of the permuted patient indices.
\<close>

lemma for_each_accum_rel:
  fixes A :: "'b::comm_monoid_add"
  assumes "P st A"
    and "\<And>x s s' B. x \<in> set xs \<Longrightarrow> P s B \<Longrightarrow> body x s = Inr s' \<Longrightarrow> P s' (B + F x)"
    and "for_each xs body st = Inr st'"
  shows "P st' (A + sum_list (map F xs))"
  using assms
proof (induction xs arbitrary: st A)
  case Nil
  then show ?case by simp
next
  case (Cons x xs)
  from Cons.prems(3) obtain s1 where s1: "body x st = Inr s1" and rest: "for_each xs body s1 = Inr st'"
    by (auto split: sum.splits)
  from Cons.prems(2) [of x st A s1] Cons.prems(1) s1 have s1_ok: "P s1 (A + F x)" by simp
  have "P st' (A + F x + sum_list (map F xs))"
  proof (rule Cons.IH [OF s1_ok _ rest])
    fix y s s' B
    assume "y \<in> set xs" "P s B" "body y s = Inr s'"
    then show "P s' (B + F y)" using Cons.prems(2) [of y s B s'] by simp
  qed
  then show ?case by (simp add: add.assoc)
qed

lemma built_Nil: "built [] = empty_set"
  by (simp add: built_def empty_set_def)

lemma replicate_blocks:
  assumes "\<And>i. i \<in> set js \<Longrightarrow> length (f i) = P"
  shows "concat (map (\<lambda>i. replicate (length (f i)) c) js) = replicate (length js * P) c"
  using assms by (induction js) (simp_all add: replicate_add)

lemma built_append_blocks:
  assumes "\<And>i. i \<in> set js \<Longrightarrow> length (block_of X p i) = nat p"
  shows "built (bs @ map (\<lambda>i. (block_of X p i, l, c)) js) = add_blocks (built bs) X p js c"
proof -
  have "concat (map (\<lambda>(rows, l, c). replicate (length rows) c) (map (\<lambda>i. (block_of X p i, l, c)) js))
        = concat (map (\<lambda>i. replicate (length (block_of X p i)) c) js)"
    by (simp add: o_def)
  also have "\<dots> = replicate (length js * nat p) c" using assms by (rule replicate_blocks)
  finally show ?thesis by (simp add: built_def add_blocks_def o_def)
qed

lemma split_label_blocks:
  assumes perm: "\<And>xs g. mset (fst (np_random_permutation env xs g)) = mset xs"
    and ok: "split_label env lm spectra ls p l (sets, g) = Inr (sets', g')"
  shows "\<exists>tri vai tei c.
           train_set sets' = add_blocks (train_set sets) (mask_select spectra ls l) p tri c
         \<and> val_set sets' = add_blocks (val_set sets) (mask_select spectra ls l) p vai c
         \<and> test_set sets' = add_blocks (test_set sets) (mask_select spectra ls l) p tei c
         \<and> mset (tri @ vai @ tei) = mset [0..<nat (int (length (mask_select spectra ls l)) div p)]
         \<and> (tri @ vai @ tei \<noteq> [] \<longrightarrow> dict_get lm l = Inr c)
         \<and> (\<forall>i \<in> set (tri @ vai @ tei). length (block_of (mask_select spectra ls l) p i) = nat p)"
proof -
  let ?X = "mask_select spectra ls l"
  let ?n = "int (length ?X) div p"
  from ok have len: "length ls = length spectra" and p: "p \<noteq> 0"
    by (auto simp: split_label_def split: if_splits)
  obtain idxs g0 where pm: "np_random_permutation env (np_arange ?n) g = (idxs, g0)"
    by (cases "np_random_permutation env (np_arange ?n) g")
  from perm [of "np_arange ?n" g] pm have idxs: "mset idxs = mset [0..<nat ?n]"
    by (simp add: np_arange_def)
  from ok len p pm obtain a b where ends: "split_ends ?n = Inr (a, b)"
    by (auto simp: split_label_def Let_def split: sum.splits)
  obtain tri vai tei where sp: "split_patients idxs a b = (tri, vai, tei)"
    by (cases "split_patients idxs a b")
  from ok len p pm ends sp obtain tr' va' te' where
    ftr: "for_each tri (add_patient lm ?X p l) (train_set sets) = Inr tr'"
    and fva: "for_each vai (add_patient lm ?X p l) (val_set sets) = Inr va'"
    and fte: "for_each tei (add_patient lm ?X p l) (test_set sets) = Inr te'"
    and res: "sets' = \<lparr>train_set = tr', val_set = va', test_set = te'\<rparr>"
    by (auto simp: split_label_def Let_def split: sum.splits)
  have app: "tri @ vai @ tei = idxs"
  proof (cases "idxs = []")
    case True
    with sp show ?thesis by (simp add: split_patients_Nil)
  next
    case False
    with idxs have "0 \<le> ?n" by (cases "0 \<le> ?n") auto
    from split_ends_ordered [OF ends this] sp show ?thesis
      by (auto intro: split_patients_append)
  qed
  from blocks_of_permutation(2) [OF p idxs]
  have blen: "\<And>i. i \<in> set idxs \<Longrightarrow> length (block_of ?X p i) = nat p" .
  define c0 where "c0 = (case dict_get lm l of Inr c \<Rightarrow> c | Inl e \<Rightarrow> 0)"
  have ext: "d' = add_blocks d ?X p js c0 \<and> (js \<noteq> [] \<longrightarrow> dict_get lm l = Inr c0)"
    if "for_each js (add_patient lm ?X p l) d = Inr d'" for js d d'
  proof -
    from for_each_add_patient_eq [OF that] obtain c where
      d': "d' = d\<lparr>set_data := set_data d @ concat (map (block_of ?X p) js),
                   set_labels := set_labels d @ replicate (length js * nat p) c\<rparr>"
      and c: "js \<noteq> [] \<longrightarrow> dict_get lm l = Inr c" by blast
    have "replicate (length js * nat p) c = replicate (length js * nat p) c0"
      using c by (cases js) (auto simp: c0_def)
    with d' c show ?thesis by (cases js) (auto simp: add_blocks_def c0_def)
  qed
  from ext [OF ftr] ext [OF fva] ext [OF fte] res
  have "train_set sets' = add_blocks (train_set sets) ?X p tri c0"
    "val_set sets' = add_blocks (val_set sets) ?X p vai c0"
    "test_set sets' = add_blocks (test_set sets) ?X p tei c0"
    "tri @ vai @ tei \<noteq> [] \<longrightarrow> dict_get lm l = Inr c0"
    by auto
  moreover have "mset (tri @ vai @ tei) = mset [0..<nat ?n]" by (simp only: app idxs)
  moreover have "\<forall>i \<in> set (tri @ vai @ tei). length (block_of ?X p i) = nat p"
    using blen by (simp only: app) blast
  ultimately show ?thesis by blast
qed

lemma split_label_coded:
  assumes perm: "\<And>xs g. mset (fst (np_random_permutation env xs g)) = mset xs"
    and ok: "split_label env lm spectra ls p l (sets, g) = Inr (sets', g')"
    and inv: "blocks_in lm sets A"
  shows "blocks_in lm sets'
           (A + mset (map (\<lambda>b. (b, l)) (label_block_list (mask_select spectra ls l) p)))"
proof -
  let ?X = "mask_select spectra ls l"
  let ?n = "nat (int (length ?X) div p)"
  from inv obtain tb vb eb where
    old: "train_set sets = built tb" "val_set sets = built vb" "test_set sets = built eb"
    and codes: "\<forall>(rows, l, c) \<in> set (tb @ vb @ eb). dict_get lm l = Inr c"
    and A: "mset (map (\<lambda>(rows, l, c). (rows, l)) (tb @ vb @ eb)) = A"
    unfolding blocks_in_def by blast
  from split_label_blocks [OF perm ok] obtain tri vai tei c where
    new: "train_set sets' = add_blocks (train_set sets) ?X p tri c"
      "val_set sets' = add_blocks (val_set sets) ?X p vai c"
      "test_set sets' = add_blocks (test_set sets) ?X p tei c"
    and ms: "mset (tri @ vai @ tei) = mset [0..<?n]"
    and code: "tri @ vai @ tei \<noteq> [] \<longrightarrow> dict_get lm l = Inr c"
    and blen: "\<forall>i \<in> set (tri @ vai @ tei). length (block_of ?X p i) = nat p"
    by blast
  let ?mk = "map (\<lambda>i. (block_of ?X p i, l, c))"
  let ?tb = "tb @ ?mk tri" and ?vb = "vb @ ?mk vai" and ?eb = "eb @ ?mk tei"
  have b: "train_set sets' = built ?tb" "val_set sets' = built ?vb" "test_set sets' = built ?eb"
    using blen by (simp_all add: new old built_append_blocks)
  from codes have codes': "dict_get lm l' = Inr c'" if "(rows, l', c') \<in> set (tb @ vb @ eb)"
    for rows l' c' using that by blast
  have c: "\<forall>(rows, l, c) \<in> set (?tb @ ?vb @ ?eb). dict_get lm l = Inr c"
  proof (clarify)
    fix rows l' c'
    assume "(rows, l', c') \<in> set (?tb @ ?vb @ ?eb)"
    then consider "(rows, l', c') \<in> set (tb @ vb @ eb)"
      | "(rows, l', c') \<in> set (?mk (tri @ vai @ tei))" by auto
    then show "dict_get lm l' = Inr c'"
    proof cases
      case 1
      then show ?thesis by (rule codes')
    next
      case 2
      then have "l' = l" "c' = c" "tri @ vai @ tei \<noteq> []" by auto
      with code show ?thesis by simp
    qed
  qed
  have "mset (map (\<lambda>(rows, l, c). (rows, l)) (?mk tri @ ?mk vai @ ?mk tei))
        = image_mset (\<lambda>i. (block_of ?X p i, l)) (mset (tri @ vai @ tei))"
    by (simp add: o_def)
  also have "\<dots> = mset (map (\<lambda>b. (b, l)) (label_block_list ?X p))"
    by (simp only: ms) (simp add: label_block_list_def o_def del: mset_upt)
  finally have "mset (map (\<lambda>(rows, l, c). (rows, l)) (?tb @ ?vb @ ?eb))
        = A + mset (map (\<lambda>b. (b, l)) (label_block_list ?X p))"
    using A by (simp add: ac_simps)
  with b c show ?thesis unfolding blocks_in_def by blast
qed

lemma split_source_coded:
  assumes perm: "\<And>xs g. mset (fst (np_random_permutation env xs g)) = mset xs"
    and ok: "split_source env lm src st = Inr st'"
    and inv: "blocks_in lm (fst st) A"
  shows "blocks_in lm (fst st') (A + mset (source_block_list env src))"
proof -
  obtain sp lp p where src: "src = (sp, lp, p)" by (cases src)
  from ok obtain spectra ls where ld: "load_spectra env sp = Some spectra" "load_labels env lp = Some ls"
    and loop: "for_each (np_unique ls) (split_label env lm spectra ls p) st = Inr st'"
    by (auto simp: split_source_def src split: option.splits)
  let ?F = "\<lambda>l. mset (map (\<lambda>b. (b, l)) (label_block_list (mask_select spectra ls l) p))"
  have "blocks_in lm (fst st') (A + sum_list (map ?F (np_unique ls)))"
  proof (rule for_each_accum_rel [where P = "\<lambda>s B. blocks_in lm (fst s) B" and F = ?F, OF inv _ loop])
    fix l s s' B
    assume "blocks_in lm (fst s) B" and step: "split_label env lm spectra ls p l s = Inr s'"
    obtain a b a' b' where s: "s = (a, b)" "s' = (a', b')" by (cases s, cases s')
    from split_label_coded [OF perm step [unfolded s]] \<open>blocks_in lm (fst s) B\<close>
    show "blocks_in lm (fst s') (B + ?F l)" by (simp add: s)
  qed
  moreover have "sum_list (map ?F (np_unique ls)) = mset (source_block_list env src)"
    unfolding source_block_list_def src by (simp only: prod.case ld option.case sum_list_mset_concat)
  ultimately show ?thesis by simp
qed

lemma blocks_in_empty: "blocks_in lm empty_sets {#}"
  unfolding blocks_in_def
  by (rule exI [of _ "[]"], rule exI [of _ "[]"], rule exI [of _ "[]"])
    (simp add: built_Nil empty_sets_def)

lemma get_splits_coded:
  assumes perm: "\<And>xs g. mset (fst (np_random_permutation env xs g)) = mset xs"
    and gen: "\<not> use_pre_split cfg"
    and ok: "get_splits env cfg lm g = Inr (sets, g')"
  shows "blocks_in lm sets (mset (block_list env cfg))"
proof -
  from ok gen have loop: "for_each (sources cfg) (split_source env lm) (empty_sets, g) = Inr (sets, g')"
    by (simp add: get_splits_def)
  let ?F = "\<lambda>src. mset (source_block_list env src)"
  have "blocks_in lm (fst (sets, g')) ({#} + sum_list (map ?F (sources cfg)))"
  proof (rule for_each_accum_rel [where P = "\<lambda>s B. blocks_in lm (fst s) B" and F = ?F, OF _ _ loop])
    show "blocks_in lm (fst (empty_sets, g)) {#}" by (simp add: blocks_in_empty)
  next
    fix src s s' B
    assume "blocks_in lm (fst s) B" and "split_source env lm src s = Inr s'"
    then show "blocks_in lm (fst s') (B + ?F src)" using split_source_coded [OF perm] by blast
  qed
  then show ?thesis by (simp add: block_list_def sum_list_mset_concat)
qed

lemma concat_label_block_list: "concat (label_block_list X p) = label_blocks X p"
proof (cases "0 < p")
  case True
  then have n: "nat (int (length X) div p) = length X div nat p" by (rule num_patients_nat)
  have meq: "map (block_of X p) [0..<nat (int (length X) div p)]
             = map (\<lambda>i. take (nat p) (drop (i * nat p) X)) [0..<nat (int (length X) div p)]"
    by (simp add: n block_of_full(1) [OF True])
  show ?thesis unfolding label_block_list_def meq label_blocks_def by (rule concat_blocks)
next
  case False
  have "nat (int (length X) div p) = 0"
  proof (cases "p = 0")
    case True
    then show ?thesis by simp
  next
    case nz: False
    with False have "p < 0" by simp
    then have "int (length X) div p \<le> 0" by (simp add: div_nonneg_neg_le0)
    then show ?thesis by simp
  qed
  then show ?thesis by (simp add: label_block_list_def label_blocks_def)
qed

lemma length_label_block:
  assumes "b \<in> set (label_block_list X p)"
  shows "int (length b) = p"
proof -
  from assms obtain i where i: "i < nat (int (length X) div p)" "b = block_of X p i"
    by (auto simp: label_block_list_def)
  have pos: "0 < p"
  proof (rule ccontr)
    assume "\<not> 0 < p"
    then have "int (length X) div p \<le> 0"
      by (cases "p = 0") (simp_all add: div_nonneg_neg_le0)
    with i(1) show False by simp
  qed
  from i(1) have "i < length X div nat p" by (simp add: num_patients_nat [OF pos])
  from block_of_full(2) [OF pos this] pos show ?thesis by (simp add: i(2))
qed

lemma length_source_block:
  assumes "(rows, l) \<in> set (source_block_list env (sp, lp, p))"
  shows "int (length rows) = p"
  using assms
  by (auto simp: source_block_list_def split: option.splits dest: length_label_block)

lemma concat_source_block_list:
  "concat (map fst (source_block_list env src)) = source_blocks env src"
proof -
  have "concat (map fst (concat (map (\<lambda>l. map (\<lambda>b. (b, l)) (f l)) us)))
        = concat (map (\<lambda>l. concat (f l)) us)" for f :: "'b \<Rightarrow> 'a list list" and us
    by (induction us) (simp_all add: o_def)
  then show ?thesis
    by (simp add: source_block_list_def source_blocks_def concat_label_block_list
        split: prod.splits option.splits)
qed

lemma concat_block_list: "concat (map fst (block_list env cfg)) = patient_blocks env cfg"
proof -
  have "concat (map fst (concat (map (source_block_list env) srcs)))
        = concat (map (source_blocks env) srcs)" for srcs
    by (induction srcs) (simp_all add: concat_source_block_list)
  then show ?thesis by (simp add: block_list_def patient_blocks_def)
qed

text \<open>The loaders are built when the batch size is positive and the train set is not empty.\<close>

lemma create_dataloaders_ok:
  assumes "0 < bs" and "set_labels (train_set sets) \<noteq> []"
  shows "\<exists>loaders. create_dataloaders sets bs = Inr loaders"
  using assms
  by (simp add: create_dataloaders_def new_DataLoader_def dataset_len_def make_dataset_def)

lemma init_of_splits:
  assumes "np_random_seed env (seed cfg) = Inr g"
    and "get_label_mapping env cfg = Inr lm"
    and "get_splits env cfg lm g = Inr (sets, g')"
    and "0 < batch_size cfg" and "set_labels (train_set sets) \<noteq> []"
  shows "\<exists>self. SAMRaman_init env cfg g0 = Inr (self, g') \<and> splits self = sets \<and> label_map self = lm"
proof -
  from create_dataloaders_ok [OF assms(4,5)] obtain tl vl el where
    "create_dataloaders sets (batch_size cfg) = Inr (tl, vl, el)" by (metis prod_cases3)
  with assms(1-3) show ?thesis by (simp add: SAMRaman_init_def)
qed

text \<open>The generator of the concrete inputs returns a permutation.\<close>

lemma demo_permutation: "mset (fst (np_random_permutation demo_env xs g)) = mset xs"
  by (simp add: demo_env_def)

text \<open>
  Claim C4, as the code has it. In generation mode, over the zipped sources: the data of
  each of the three sets is a sequence of whole patient blocks, and the blocks of the
  three sets together are the patient blocks of the sources, each as often as it occurs
  there, so that no block is divided between two sets and none is in two of them; a
  block of a source with patient interval \<open>p\<close> has \<open>p\<close> rows; blocks and remainders
  together are the rows of the spectra files; and when those rows are pairwise distinct
  the three sets are pairwise disjoint.
\<close>

theorem generation_partitions_cover:
  assumes perm: "\<And>xs g. mset (fst (np_random_permutation env xs g)) = mset xs"
    and gen: "\<not> use_pre_split cfg"
    and fa: "files_aligned env cfg"
    and ok: "SAMRaman_init env cfg g0 = Inr (self, g')"
  shows "(\<exists>tb vb eb.
            set_data (train_set (splits self)) = concat tb
          \<and> set_data (val_set (splits self)) = concat vb
          \<and> set_data (test_set (splits self)) = concat eb
          \<and> mset (tb @ vb @ eb) = mset (map fst (block_list env cfg)))
       \<and> (\<forall>src \<in> set (sources cfg). \<forall>(rows, l) \<in> set (source_block_list env src).
            int (length rows) = snd (snd src))
       \<and> mset (all_data (splits self)) = mset (patient_blocks env cfg)
       \<and> mset (patient_blocks env cfg) + mset (remainders env cfg) = mset (input_samples env cfg)
       \<and> (distinct (input_samples env cfg) \<longrightarrow>
            set (set_data (train_set (splits self))) \<inter> set (set_data (val_set (splits self))) = {}
          \<and> set (set_data (train_set (splits self))) \<inter> set (set_data (test_set (splits self))) = {}
          \<and> set (set_data (val_set (splits self))) \<inter> set (set_data (test_set (splits self))) = {})"
proof -
  from ok obtain g where gs: "get_splits env cfg (label_map self) g = Inr (splits self, g')"
    by (rule init_generation)
  from get_splits_coded [OF perm gen gs] obtain tb vb eb where
    b: "train_set (splits self) = built tb" "val_set (splits self) = built vb"
      "test_set (splits self) = built eb"
    and ms: "mset (map (\<lambda>(rows, l, c). (rows, l)) (tb @ vb @ eb)) = mset (block_list env cfg)"
    unfolding blocks_in_def by blast
  have "image_mset fst (mset (map (\<lambda>(rows, l, c). (rows, l)) (tb @ vb @ eb)))
        = mset (map fst tb @ map fst vb @ map fst eb)"
    by (simp add: image_mset.compositionality o_def split_def)
  with ms have "mset (map fst tb @ map fst vb @ map fst eb) = mset (map fst (block_list env cfg))"
    by simp
  with b have whole: "\<exists>tb vb eb.
            set_data (train_set (splits self)) = concat tb
          \<and> set_data (val_set (splits self)) = concat vb
          \<and> set_data (test_set (splits self)) = concat eb
          \<and> mset (tb @ vb @ eb) = mset (map fst (block_list env cfg))"
    by (intro exI [of _ "map fst tb"] exI [of _ "map fst vb"] exI [of _ "map fst eb"])
      (simp add: built_def)
  have rows: "\<forall>src \<in> set (sources cfg). \<forall>(rows, l) \<in> set (source_block_list env src).
            int (length rows) = snd (snd src)"
    using length_source_block by fastforce
  from get_splits_blocks [OF perm gen gs]
  have blocks: "mset (all_data (splits self)) = mset (patient_blocks env cfg)" .
  from fa have cover: "mset (patient_blocks env cfg) + mset (remainders env cfg) = mset (input_samples env cfg)"
    by (rule sources_cover)
  have "distinct (all_data (splits self))" if "distinct (input_samples env cfg)"
  proof -
    from that have "distinct (patient_blocks env cfg @ remainders env cfg)"
      using cover by (metis mset_append mset_eq_imp_distinct_iff)
    then have "distinct (patient_blocks env cfg)" by simp
    with blocks show ?thesis by (metis mset_eq_imp_distinct_iff)
  qed
  then have "distinct (input_samples env cfg) \<longrightarrow>
            set (set_data (train_set (splits self))) \<inter> set (set_data (val_set (splits self))) = {}
          \<and> set (set_data (train_set (splits self))) \<inter> set (set_data (test_set (splits self))) = {}
          \<and> set (set_data (val_set (splits self))) \<inter> set (set_data (test_set (splits self))) = {}"
    by (auto simp: all_data_def)
  with whole rows blocks cover show ?thesis by blast
qed

theorem generation_partitions_cover_witness:
  "\<not> use_pre_split demo_two_sources \<and> files_aligned demo_env demo_two_sources
   \<and> \<not> isl (SAMRaman_init demo_env demo_two_sources 0)
   \<and> distinct (input_samples demo_env demo_two_sources)
   \<and> map fst (block_list demo_env demo_two_sources)
       = [[0, 1, 2], [3, 4, 5], [6, 7, 8], [9, 10, 11], [12, 13, 14], [15, 16, 17],
          [100, 102], [104, 106], [101, 103]]
   \<and> set_data (train_set (splits (fst (projr (SAMRaman_init demo_env demo_two_sources 0)))))
       = concat [[15, 16, 17], [12, 13, 14], [9, 10, 11], [6, 7, 8], [104, 106]]
   \<and> set_data (val_set (splits (fst (projr (SAMRaman_init demo_env demo_two_sources 0)))))
       = concat [[3, 4, 5]]
   \<and> set_data (test_set (splits (fst (projr (SAMRaman_init demo_env demo_two_sources 0)))))
       = concat [[0, 1, 2], [100, 102], [101, 103]]
   \<and> mset (all_data (splits (fst (projr (SAMRaman_init demo_env demo_two_sources 0)))))
       = mset (patient_blocks demo_env demo_two_sources)
   \<and> mset (patient_blocks demo_env demo_two_sources) + mset (remainders demo_env demo_two_sources)
       = mset (input_samples demo_env demo_two_sources)
   \<and> set (set_data (train_set (splits (fst (projr (SAMRaman_init demo_env demo_two_sources 0))))))
       \<inter> set (set_data (test_set (splits (fst (projr (SAMRaman_init demo_env demo_two_sources 0))))))
       = {}"
proof -
  let ?r = "SAMRaman_init demo_env demo_two_sources 0"
  have gen: "\<not> use_pre_split demo_two_sources" by (simp add: demo_two_sources_def demo_config_def)
  have fa: "files_aligned demo_env demo_two_sources" by code_simp
  have ok: "\<not> isl ?r" by code_simp
  then obtain self g where h: "?r = Inr (self, g)" by (cases ?r) auto
  have d: "distinct (input_samples demo_env demo_two_sources)" by code_simp
  have bl: "map fst (block_list demo_env demo_two_sources)
       = [[0, 1, 2], [3, 4, 5], [6, 7, 8], [9, 10, 11], [12, 13, 14], [15, 16, 17],
          [100, 102], [104, 106], [101, 103]]" by code_simp
  have sets: "set_data (train_set (splits (fst (projr ?r))))
       = concat [[15, 16, 17], [12, 13, 14], [9, 10, 11], [6, 7, 8], [104, 106]]"
    "set_data (val_set (splits (fst (projr ?r)))) = concat [[3, 4, 5]]"
    "set_data (test_set (splits (fst (projr ?r)))) = concat [[0, 1, 2], [100, 102], [101, 103]]"
    by code_simp+
  from generation_partitions_cover [OF demo_permutation gen fa h] d
  have "mset (all_data (splits self)) = mset (patient_blocks demo_env demo_two_sources)"
    "mset (patient_blocks demo_env demo_two_sources) + mset (remainders demo_env demo_two_sources)
       = mset (input_samples demo_env demo_two_sources)"
    "set (set_data (train_set (splits self))) \<inter> set (set_data (test_set (splits self))) = {}"
    by blast+
  with gen fa ok d bl sets show ?thesis by (simp only: h sum.sel fst_conv) simp
qed

text \<open>
  The claim as stated fails. With two spectral paths and one patient interval,
  construction returns an object whose three sets hold the twenty rows of the first
  file; the rows \<open>100, \<dots>, 106\<close> of the second file \<open>b\<close> are in none of them, and they are
  not the remainder of any patient block.
\<close>

theorem unaligned_source_left_out_counterexample:
  "\<not> use_pre_split demo_unaligned
   \<and> spectral_dirs demo_unaligned = [''a'', ''b'']
   \<and> load_spectra demo_env ''b'' = Some [100..<107]
   \<and> \<not> isl (SAMRaman_init demo_env demo_unaligned 0)
   \<and> mset (all_data (splits (fst (projr (SAMRaman_init demo_env demo_unaligned 0))))) = mset [0..<20]"
  by code_simp

text \<open>
  Claim C6. In generation mode, for a source with a positive patient interval \<open>p\<close> and
  a label \<open>l\<close> of it, the rows \<open>X\<close> of that label are the patient blocks followed by a
  remainder of \<open>len(X) % p\<close> rows; when the rows of the input are pairwise distinct, the
  rows of the blocks are in the sets and no row of the remainder is.
\<close>

theorem remainder_dropped:
  assumes perm: "\<And>xs g. mset (fst (np_random_permutation env xs g)) = mset xs"
    and gen: "\<not> use_pre_split cfg"
    and fa: "files_aligned env cfg"
    and ok: "SAMRaman_init env cfg g0 = Inr (self, g')"
    and src: "(sp, lp, p) \<in> set (sources cfg)"
    and ld: "load_spectra env sp = Some spectra" "load_labels env lp = Some ls"
    and l: "l \<in> set ls"
    and p: "0 < p"
    and X: "X = mask_select spectra ls l"
  shows "X = label_blocks X p @ label_remainder X p
       \<and> int (length (label_remainder X p)) = int (length X) mod p
       \<and> (distinct (input_samples env cfg) \<longrightarrow>
            set (label_blocks X p) \<subseteq> set (all_data (splits self))
          \<and> set (label_remainder X p) \<inter> set (all_data (splits self)) = {})"
proof -
  from ok obtain g where "get_splits env cfg (label_map self) g = Inr (splits self, g')"
    by (rule init_generation)
  from get_splits_blocks [OF perm gen this]
  have blocks: "mset (all_data (splits self)) = mset (patient_blocks env cfg)" .
  then have sets: "set (all_data (splits self)) = set (patient_blocks env cfg)"
    by (rule mset_eq_setD)
  from l have lu: "l \<in> set (np_unique ls)" by (simp add: np_unique_props)
  have "set (label_blocks X p) \<subseteq> set (source_blocks env (sp, lp, p))"
    using lu by (auto simp: source_blocks_def ld X)
  with src have in_blocks: "set (label_blocks X p) \<subseteq> set (patient_blocks env cfg)"
    by (force simp: patient_blocks_def)
  have "set (label_remainder X p) \<subseteq> set (source_remainder env (sp, lp, p))"
    using lu by (auto simp: source_remainder_def ld X)
  with src have in_rem: "set (label_remainder X p) \<subseteq> set (remainders env cfg)"
    by (force simp: remainders_def)
  have "set (label_remainder X p) \<inter> set (all_data (splits self)) = {}"
    if "distinct (input_samples env cfg)"
  proof -
    from that sources_cover [OF fa] have "distinct (patient_blocks env cfg @ remainders env cfg)"
      by (metis mset_append mset_eq_imp_distinct_iff)
    then have "set (patient_blocks env cfg) \<inter> set (remainders env cfg) = {}" by simp
    with in_rem sets show ?thesis by blast
  qed
  with in_blocks sets length_label_remainder [OF p, of X] label_blocks_remainder [of X p]
  show ?thesis by auto
qed

theorem remainder_dropped_witness:
  "(''a'', ''a_labels'', 3) \<in> set (sources demo_two_sources)
   \<and> int (length (label_remainder (mask_select [0..<20] (replicate 20 (5::nat)) 5) 3))
       = int (length (mask_select [0..<20] (replicate 20 (5::nat)) 5)) mod 3
   \<and> label_remainder (mask_select [0..<20] (replicate 20 (5::nat)) 5) 3 = [18, 19]
   \<and> set (label_remainder (mask_select [0..<20] (replicate 20 (5::nat)) 5) 3)
       \<inter> set (all_data (splits (fst (projr (SAMRaman_init demo_env demo_two_sources 0))))) = {}"
proof -
  let ?r = "SAMRaman_init demo_env demo_two_sources 0"
  have gen: "\<not> use_pre_split demo_two_sources" by (simp add: demo_two_sources_def demo_config_def)
  have fa: "files_aligned demo_env demo_two_sources" by code_simp
  have "\<not> isl ?r" by code_simp
  then obtain self g where h: "?r = Inr (self, g)" by (cases ?r) auto
  have d: "distinct (input_samples demo_env demo_two_sources)" by code_simp
  have src: "(''a'', ''a_labels'', 3) \<in> set (sources demo_two_sources)"
    by (simp add: sources_def demo_two_sources_def demo_config_def)
  have ld: "load_spectra demo_env ''a'' = Some [0..<20]"
    "load_labels demo_env ''a_labels'' = Some (replicate 20 5)"
    by (simp_all add: demo_env_def demo_spectra_def demo_labels_def)
  have l: "(5::nat) \<in> set (replicate 20 5)" by simp
  have rem: "label_remainder (mask_select [0..<20] (replicate 20 (5::nat)) 5) 3 = [18, 19]"
    by code_simp
  from remainder_dropped [OF demo_permutation gen fa h src ld l _ refl] d src rem
  show ?thesis by (simp add: h)
qed

lemma paired_extended:
  assumes "paired R d" and "\<And>x. x \<in> set rows \<Longrightarrow> R x c"
  shows "paired R (extended d rows c)"
proof -
  from assms(1) have len: "length (set_data d) = length (set_labels d)"
    and old: "list_all (\<lambda>(x, c). R x c) (zip (set_data d) (set_labels d))"
    by (simp_all add: paired_def)
  have "R a b" if "(a, b) \<in> set (zip rows (replicate (length rows) c))" for a b
  proof -
    from that have "a \<in> set rows" by (rule set_zip_leftD)
    moreover from that have "b \<in> set (replicate (length rows) c)" by (rule set_zip_rightD)
    then have "b = c" by simp
    ultimately show ?thesis using assms(2) by simp
  qed
  then have "list_all (\<lambda>(x, c). R x c) (zip rows (replicate (length rows) c))"
    by (auto simp: list_all_iff)
  with len old show ?thesis by (simp add: paired_def extended_def)
qed

lemma in_mask_select: "x \<in> set (mask_select spectra ls l) \<Longrightarrow> (x, l) \<in> set (zip spectra ls)"
  by (auto simp: mask_select_def)

lemma split_label_paired:
  assumes perm: "\<And>xs g. mset (fst (np_random_permutation env xs g)) = mset xs"
    and ok: "split_label env lm spectra ls p l (sets, g) = Inr (sets', g')"
    and R: "\<And>x l c. (x, l) \<in> set (zip spectra ls) \<Longrightarrow> dict_get lm l = Inr c \<Longrightarrow> R x c"
    and inv: "paired R (train_set sets)" "paired R (val_set sets)" "paired R (test_set sets)"
  shows "paired R (train_set sets') \<and> paired R (val_set sets') \<and> paired R (test_set sets')"
proof -
  let ?X = "mask_select spectra ls l"
  from split_label_extends(1) [OF perm ok] obtain tr va te c where
    ext: "train_set sets' = extended (train_set sets) tr c"
      "val_set sets' = extended (val_set sets) va c"
      "test_set sets' = extended (test_set sets) te c"
    and ms: "mset (tr @ va @ te) = mset (label_blocks ?X p)"
    and code: "tr @ va @ te \<noteq> [] \<longrightarrow> dict_get lm l = Inr c"
    by blast
  have rows: "R x c" if "x \<in> set (tr @ va @ te)" for x
  proof -
    from that have "x \<in> set (label_blocks ?X p)" using mset_eq_setD [OF ms] by blast
    then have "x \<in> set ?X" by (auto simp: label_blocks_def dest: in_set_takeD)
    then have "(x, l) \<in> set (zip spectra ls)" by (rule in_mask_select)
    moreover from that code have "dict_get lm l = Inr c" by auto
    ultimately show ?thesis by (rule R)
  qed
  show ?thesis
    unfolding ext using inv rows by (auto intro!: paired_extended)
qed

lemma split_source_paired:
  assumes perm: "\<And>xs g. mset (fst (np_random_permutation env xs g)) = mset xs"
    and ok: "split_source env lm src (sets, g) = Inr (sets', g')"
    and R: "\<And>x c. row_with_code env lm src x c \<Longrightarrow> R x c"
    and inv: "paired R (train_set sets) \<and> paired R (val_set sets) \<and> paired R (test_set sets)"
  shows "paired R (train_set sets') \<and> paired R (val_set sets') \<and> paired R (test_set sets')"
proof -
  obtain sp lp p where src: "src = (sp, lp, p)" by (cases src)
  from ok obtain spectra ls where ld: "load_spectra env sp = Some spectra" "load_labels env lp = Some ls"
    and loop: "for_each (np_unique ls) (split_label env lm spectra ls p) (sets, g) = Inr (sets', g')"
    by (auto simp: split_source_def src split: option.splits)
  have R': "R x c" if "(x, l) \<in> set (zip spectra ls)" "dict_get lm l = Inr c" for x l c
    using that by (intro R) (auto simp: row_with_code_def src ld list_ex_iff)
  let ?I = "\<lambda>s. paired R (train_set (fst s)) \<and> paired R (val_set (fst s)) \<and> paired R (test_set (fst s))"
  have "?I (sets', g')"
  proof (rule for_each_invariant [where I = ?I, OF _ _ loop])
    show "?I (sets, g)" using inv by simp
  next
    fix l s s'
    assume "?I s" and step: "split_label env lm spectra ls p l s = Inr s'"
    obtain a b a' b' where s: "s = (a, b)" "s' = (a', b')" by (cases s, cases s')
    from split_label_paired [OF perm step [unfolded s], of R, OF R'] \<open>?I s\<close>
    show "?I s'" by (simp add: s)
  qed
  then show ?thesis by simp
qed

lemma paired_empty: "paired R empty_set"
  by (simp add: paired_def empty_set_def)

text \<open>
  Claim C10. In generation mode each of the three sets is built from a sequence of
  patient blocks: every block puts its rows into the data and, in the same place, as
  many copies of the code of its raw label into the labels. The blocks of the three sets
  are the patient blocks of the sources, each once, and a block of a source with patient
  interval \<open>p\<close> has \<open>p\<close> rows. So each set has as many labels as samples, and the label
  at an index is the code of the raw label that the sample at that index carries in its
  source.
\<close>

theorem generation_sets_aligned:
  assumes perm: "\<And>xs g. mset (fst (np_random_permutation env xs g)) = mset xs"
    and gen: "\<not> use_pre_split cfg"
    and ok: "SAMRaman_init env cfg g0 = Inr (self, g')"
  shows "(\<exists>tb vb eb.
            train_set (splits self) = built tb \<and> val_set (splits self) = built vb
          \<and> test_set (splits self) = built eb
          \<and> (\<forall>(rows, l, c) \<in> set (tb @ vb @ eb). dict_get (label_map self) l = Inr c)
          \<and> mset (map (\<lambda>(rows, l, c). (rows, l)) (tb @ vb @ eb)) = mset (block_list env cfg))
       \<and> (\<forall>src \<in> set (sources cfg). \<forall>(rows, l) \<in> set (source_block_list env src).
            int (length rows) = snd (snd src))
       \<and> (\<forall>d \<in> {train_set (splits self), val_set (splits self), test_set (splits self)}.
            length (set_data d) = length (set_labels d)
          \<and> (\<forall>(x, c) \<in> set (zip (set_data d) (set_labels d)).
               \<exists>src \<in> set (sources cfg). row_with_code env (label_map self) src x c))"
proof -
  let ?lm = "label_map self"
  let ?R = "\<lambda>x c. \<exists>src \<in> set (sources cfg). row_with_code env ?lm src x c"
  let ?I = "\<lambda>s. paired ?R (train_set (fst s)) \<and> paired ?R (val_set (fst s)) \<and> paired ?R (test_set (fst s))"
  from ok obtain g where gs: "get_splits env cfg ?lm g = Inr (splits self, g')"
    by (rule init_generation)
  from get_splits_coded [OF perm gen gs]
  have coded: "\<exists>tb vb eb.
            train_set (splits self) = built tb \<and> val_set (splits self) = built vb
          \<and> test_set (splits self) = built eb
          \<and> (\<forall>(rows, l, c) \<in> set (tb @ vb @ eb). dict_get (label_map self) l = Inr c)
          \<and> mset (map (\<lambda>(rows, l, c). (rows, l)) (tb @ vb @ eb)) = mset (block_list env cfg)"
    unfolding blocks_in_def .
  have rows: "\<forall>src \<in> set (sources cfg). \<forall>(rows, l) \<in> set (source_block_list env src).
            int (length rows) = snd (snd src)"
    using length_source_block by fastforce
  from gs gen have loop: "for_each (sources cfg) (split_source env ?lm) (empty_sets, g) = Inr (splits self, g')"
    by (simp add: get_splits_def)
  have "?I (splits self, g')"
  proof (rule for_each_invariant [where I = ?I, OF _ _ loop])
    show "?I (empty_sets, g)" by (simp add: empty_sets_def paired_empty)
  next
    fix src s s'
    assume src: "src \<in> set (sources cfg)" and "?I s"
      and step: "split_source env ?lm src s = Inr s'"
    obtain a b a' b' where s: "s = (a, b)" "s' = (a', b')" by (cases s, cases s')
    have "?R x c" if "row_with_code env ?lm src x c" for x c using that src by blast
    from split_source_paired [OF perm step [unfolded s], of ?R, OF this] \<open>?I s\<close>
    show "?I s'" by (simp add: s)
  qed
  then have "\<forall>d \<in> {train_set (splits self), val_set (splits self), test_set (splits self)}.
            length (set_data d) = length (set_labels d)
          \<and> (\<forall>(x, c) \<in> set (zip (set_data d) (set_labels d)).
               \<exists>src \<in> set (sources cfg). row_with_code env (label_map self) src x c)"
    by (auto simp: paired_def list_all_iff)
  with coded rows show ?thesis by blast
qed

theorem generation_sets_aligned_witness:
  "\<not> use_pre_split demo_two_sources \<and> \<not> isl (SAMRaman_init demo_env demo_two_sources 0)
   \<and> block_list demo_env demo_two_sources
       = [([0, 1, 2], 5), ([3, 4, 5], 5), ([6, 7, 8], 5), ([9, 10, 11], 5), ([12, 13, 14], 5),
          ([15, 16, 17], 5), ([100, 102], 1), ([104, 106], 1), ([101, 103], 2)]
   \<and> label_map (fst (projr (SAMRaman_init demo_env demo_two_sources 0))) = [(1, 0), (2, 1), (5, 2)]
   \<and> train_set (splits (fst (projr (SAMRaman_init demo_env demo_two_sources 0))))
       = built [([15, 16, 17], 5, 2), ([12, 13, 14], 5, 2), ([9, 10, 11], 5, 2), ([6, 7, 8], 5, 2),
                ([104, 106], 1, 0)]
   \<and> val_set (splits (fst (projr (SAMRaman_init demo_env demo_two_sources 0))))
       = built [([3, 4, 5], 5, 2)]
   \<and> test_set (splits (fst (projr (SAMRaman_init demo_env demo_two_sources 0))))
       = built [([0, 1, 2], 5, 2), ([100, 102], 1, 0), ([101, 103], 2, 1)]
   \<and> length (set_data (train_set (splits (fst (projr (SAMRaman_init demo_env demo_two_sources 0))))))
       = length (set_labels (train_set (splits (fst (projr (SAMRaman_init demo_env demo_two_sources 0))))))
   \<and> length (set_data (test_set (splits (fst (projr (SAMRaman_init demo_env demo_two_sources 0))))))
       = length (set_labels (test_set (splits (fst (projr (SAMRaman_init demo_env demo_two_sources 0))))))"
proof -
  let ?r = "SAMRaman_init demo_env demo_two_sources 0"
  have gen: "\<not> use_pre_split demo_two_sources" by (simp add: demo_two_sources_def demo_config_def)
  have ok: "\<not> isl ?r" by code_simp
  then obtain self g where h: "?r = Inr (self, g)" by (cases ?r) auto
  have bl: "block_list demo_env demo_two_sources
       = [([0, 1, 2], 5), ([3, 4, 5], 5), ([6, 7, 8], 5), ([9, 10, 11], 5), ([12, 13, 14], 5),
          ([15, 16, 17], 5), ([100, 102], 1), ([104, 106], 1), ([101, 103], 2)]" by code_simp
  have lm: "label_map (fst (projr ?r)) = [(1, 0), (2, 1), (5, 2)]" by code_simp
  have sets: "train_set (splits (fst (projr ?r)))
       = built [([15, 16, 17], 5, 2), ([12, 13, 14], 5, 2), ([9, 10, 11], 5, 2), ([6, 7, 8], 5, 2),
                ([104, 106], 1, 0)]"
    "val_set (splits (fst (projr ?r))) = built [([3, 4, 5], 5, 2)]"
    "test_set (splits (fst (projr ?r)))
       = built [([0, 1, 2], 5, 2), ([100, 102], 1, 0), ([101, 103], 2, 1)]"
    by code_simp+
  from generation_sets_aligned [OF demo_permutation gen h]
  have "length (set_data (train_set (splits self))) = length (set_labels (train_set (splits self)))"
    "length (set_data (test_set (splits self))) = length (set_labels (test_set (splits self)))"
    by blast+
  with gen ok bl lm sets show ?thesis by (simp only: h sum.sel fst_conv) simp
qed

lemma for_each_add_patient_ok:
  assumes "dict_get lm l = Inr c"
  shows "for_each idxs (add_patient lm X p l) d = Inr (add_blocks d X p idxs c)"
proof (induction idxs arbitrary: d)
  case Nil
  then show ?case by (simp add: add_blocks_def)
next
  case (Cons i idxs)
  let ?d1 = "d\<lparr>set_data := set_data d @ block_of X p i,
               set_labels := set_labels d @ replicate (nat p) c\<rparr>"
  have step: "add_patient lm X p l i d = Inr ?d1" by (simp add: add_patient_def assms block_of_def)
  have "for_each (i # idxs) (add_patient lm X p l) d = for_each idxs (add_patient lm X p l) ?d1"
    by (simp only: for_each.simps step sum.case)
  also note Cons.IH [of ?d1]
  finally show ?case by (simp add: add_blocks_def replicate_add [symmetric])
qed

lemma split_label_eq:
  assumes "length ls = length spectra" and "p \<noteq> 0"
    and "np_random_permutation env (np_arange (int (length (mask_select spectra ls l)) div p)) g = (idxs, g1)"
    and "split_ends (int (length (mask_select spectra ls l)) div p) = Inr (a, b)"
    and "split_patients idxs a b = (tri, vai, tei)"
    and "dict_get lm l = Inr c"
  shows "split_label env lm spectra ls p l (sets, g)
         = Inr (\<lparr>train_set = add_blocks (train_set sets) (mask_select spectra ls l) p tri c,
                 val_set = add_blocks (val_set sets) (mask_select spectra ls l) p vai c,
                 test_set = add_blocks (test_set sets) (mask_select spectra ls l) p tei c\<rparr>, g1)"
  using assms by (simp add: split_label_def Let_def for_each_add_patient_ok)

lemma np_unique_replicate: "0 < n \<Longrightarrow> np_unique (replicate n l) = [l]"
proof -
  assume "0 < n"
  then obtain k where k: "n = Suc k" by (cases n) auto
  have "remdups (replicate (Suc k) l) = [l]" by (induction k) simp_all
  then show ?thesis by (simp add: np_unique_def k)
qed

lemma mask_select_replicate:
  "length spectra = n \<Longrightarrow> mask_select spectra (replicate n l) l = spectra"
proof -
  assume len: "length spectra = n"
  have "filter (\<lambda>(s, l'). l' = l) (zip spectra (replicate n l)) = zip spectra (replicate n l)"
    by (rule filter_True) (auto dest: set_zip_rightD)
  then show ?thesis using len by (simp add: mask_select_def)
qed

lemma split_ends_10: "split_ends 10 = Inr (7, 8)"
  by code_simp

text \<open>
  Claim C1. One source with one label, patient interval 2 and 20 samples, and a positive
  batch size: the split boundaries are 7 and 8, the three ranges of the permuted indices
  hold 7, 1 and 2 patients, and construction returns an object whose train, validation
  and test sets hold 14, 2 and 4 samples and as many labels.
\<close>

theorem ten_patients_split:
  assumes perm: "\<And>xs g. mset (fst (np_random_permutation env xs g)) = mset xs"
    and cfg: "spectral_dirs cfg = [sp]" "label_dirs cfg = [lp]" "patient_intervals cfg = [2]"
      "\<not> use_pre_split cfg"
    and bs: "0 < batch_size cfg"
    and ld: "load_spectra env sp = Some spectra" "load_labels env lp = Some (replicate 20 l)"
    and len: "length spectra = 20"
    and sd: "np_random_seed env (seed cfg) = Inr g"
  shows "split_ends 10 = Inr (7, 8)
       \<and> (case split_patients (fst (np_random_permutation env (np_arange 10) g)) 7 8 of
            (tr, va, te) \<Rightarrow> length tr = 7 \<and> length va = 1 \<and> length te = 2)
       \<and> (\<exists>self g'. SAMRaman_init env cfg g0 = Inr (self, g')
            \<and> map (\<lambda>d. length (set_data d))
                [train_set (splits self), val_set (splits self), test_set (splits self)] = [14, 2, 4]
            \<and> map (\<lambda>d. length (set_labels d))
                [train_set (splits self), val_set (splits self), test_set (splits self)] = [14, 2, 4])"
proof -
  obtain idxs g1 where pm: "np_random_permutation env (np_arange 10) g = (idxs, g1)"
    by (cases "np_random_permutation env (np_arange 10) g")
  from perm [of "np_arange 10" g] pm have ms: "mset idxs = mset [0..<nat (int (length spectra) div 2)]"
    by (simp add: np_arange_def len)
  from perm [of "np_arange 10" g] pm have "size (mset idxs) = size (mset (np_arange 10))" by simp
  then have n: "length idxs = 10" by (simp add: np_arange_def)
  let ?tri = "take 7 idxs" and ?vai = "drop 7 (take 8 idxs)" and ?tei = "drop 8 idxs"
  have sp: "split_patients idxs 7 8 = (?tri, ?vai, ?tei)"
    using py_slice_nonneg [of 7 8 idxs] py_slice_nonneg(3) [of 8 8 idxs]
    by (simp add: split_patients_def)
  have counts: "length ?tri = 7" "length ?vai = 1" "length ?tei = 2" using n by simp_all
  have gl: "gather_labels env cfg = Inr (replicate 20 l)"
    by (simp add: gather_labels_def cfg ld extend_loaded_def)
  have lm: "get_label_mapping env cfg = Inr [(l, 0)]"
    using get_label_mapping_eq [OF gl] by (simp add: np_unique_replicate)
  have code: "dict_get [(l, 0)] l = Inr 0" by (simp add: dict_get_def)
  have X: "mask_select spectra (replicate 20 l) l = spectra"
    using len by (rule mask_select_replicate)
  let ?add = "add_blocks empty_set spectra 2"
  let ?sets = "\<lparr>train_set = ?add ?tri 0, val_set = ?add ?vai 0, test_set = ?add ?tei 0\<rparr>"
  have sl: "split_label env [(l, 0)] spectra (replicate 20 l) 2 l (empty_sets, g) = Inr (?sets, g1)"
    using split_label_eq [of "replicate 20 l" spectra 2 env l g idxs g1 7 8 ?tri ?vai ?tei "[(l, 0)]" 0 empty_sets]
    by (simp add: X len pm split_ends_10 sp code empty_sets_def)
  have gs: "get_splits env cfg [(l, 0)] g = Inr (?sets, g1)"
    by (simp add: get_splits_def cfg sources_def split_source_def ld np_unique_replicate sl)
  have blen: "length (concat (map (block_of spectra 2) is)) = length is * 2"
    if "set is \<subseteq> set idxs" for "is"
  proof (rule length_concat_blocks)
    fix i assume "i \<in> set is"
    with that have "i \<in> set idxs" by blast
    from blocks_of_permutation(2) [of 2 idxs spectra, OF _ ms this]
    show "length (block_of spectra 2 i) = 2" by simp
  qed
  have sub: "set ?tri \<subseteq> set idxs" "set ?vai \<subseteq> set idxs" "set ?tei \<subseteq> set idxs"
    by (auto dest: in_set_takeD in_set_dropD)
  have dat: "map (\<lambda>d. length (set_data d)) [train_set ?sets, val_set ?sets, test_set ?sets] = [14, 2, 4]"
    using blen [OF sub(1)] blen [OF sub(2)] blen [OF sub(3)] counts by (simp add: empty_set_def add_blocks_def)
  have lab: "map (\<lambda>d. length (set_labels d)) [train_set ?sets, val_set ?sets, test_set ?sets] = [14, 2, 4]"
    using counts by (simp add: empty_set_def add_blocks_def)
  from lab have "set_labels (train_set ?sets) \<noteq> []" by auto
  from init_of_splits [OF sd lm gs bs this, of g0] obtain self where
    "SAMRaman_init env cfg g0 = Inr (self, g1)" "splits self = ?sets" by blast
  with dat lab have "\<exists>self g'. SAMRaman_init env cfg g0 = Inr (self, g')
            \<and> map (\<lambda>d. length (set_data d))
                [train_set (splits self), val_set (splits self), test_set (splits self)] = [14, 2, 4]
            \<and> map (\<lambda>d. length (set_labels d))
                [train_set (splits self), val_set (splits self), test_set (splits self)] = [14, 2, 4]"
    by (intro exI [of _ self] exI [of _ g1]) simp
  moreover have "case split_patients (fst (np_random_permutation env (np_arange 10) g)) 7 8 of
            (tr, va, te) \<Rightarrow> length tr = 7 \<and> length va = 1 \<and> length te = 2"
    using counts by (simp add: pm sp)
  ultimately show ?thesis using split_ends_10 by blast
qed

theorem ten_patients_split_witness:
  "split_ends 10 = Inr (7, 8)
   \<and> split_patients (fst (np_random_permutation demo_env (np_arange 10) 42)) 7 8
       = ([9, 8, 7, 6, 5, 4, 3], [2], [1, 0])
   \<and> 0 < batch_size demo_config
   \<and> \<not> isl (SAMRaman_init demo_env demo_config 0)
   \<and> map (\<lambda>d. length (set_data d))
        [train_set (splits (fst (projr (SAMRaman_init demo_env demo_config 0)))),
         val_set (splits (fst (projr (SAMRaman_init demo_env demo_config 0)))),
         test_set (splits (fst (projr (SAMRaman_init demo_env demo_config 0))))] = [14, 2, 4]"
proof -
  have cfg: "spectral_dirs demo_config = [''a'']" "label_dirs demo_config = [''a_labels'']"
    "patient_intervals demo_config = [2]" "\<not> use_pre_split demo_config"
    by (simp_all add: demo_config_def)
  have bs: "0 < batch_size demo_config" by (simp add: demo_config_def)
  have ld: "load_spectra demo_env ''a'' = Some [0..<20]"
    "load_labels demo_env ''a_labels'' = Some (replicate 20 5)"
    by (simp_all add: demo_env_def demo_spectra_def demo_labels_def)
  have len: "length [0..<20] = 20" by simp
  have sd: "np_random_seed demo_env (seed demo_config) = Inr 42"
    by (simp add: demo_env_def demo_config_def)
  note all = ten_patients_split [of demo_env demo_config "''a''" "''a_labels''" "[0..<20]" 5 42 0,
      OF demo_permutation cfg bs ld len sd]
  from all [THEN conjunct2, THEN conjunct2]
  obtain self g' where init: "SAMRaman_init demo_env demo_config 0 = Inr (self, g')"
    and lens: "map (\<lambda>d. length (set_data d))
           [train_set (splits self), val_set (splits self), test_set (splits self)] = [14, 2, 4]"
    by (elim exE conjE)
  have "split_patients (fst (np_random_permutation demo_env (np_arange 10) 42)) 7 8
       = ([9, 8, 7, 6, 5, 4, 3], [2], [1, 0])"
    by code_simp
  with all [THEN conjunct1] init lens bs show ?thesis by simp
qed

section \<open>Pre-split mode\<close>

text \<open>
  Each pass of the loop over the groups stores the arrays of its group in the \<open>"data"\<close>
  entries (lines 97 to 99) and appends the codes of its group to the \<open>"labels"\<close> entries
  (lines 101 to 106). Whatever \<open>train_test_split\<close> returns, after two groups the test set
  holds the rows of the second test file and one code for every label of both test label
  files.
\<close>

lemma for_each_add_label:
  assumes "for_each ls (add_label lm) d = Inr d'"
  shows "set_data d' = set_data d \<and> length (set_labels d') = length (set_labels d) + length ls"
  using assms
proof (induction ls arbitrary: d)
  case Nil
  then show ?case by simp
next
  case (Cons l ls)
  from Cons.prems obtain d1 where d1: "add_label lm l d = Inr d1"
    and rest: "for_each ls (add_label lm) d1 = Inr d'"
    by (auto split: sum.splits)
  from d1 have "set_data d1 = set_data d" "length (set_labels d1) = Suc (length (set_labels d))"
    by (auto simp: add_label_def split: sum.splits)
  with Cons.IH [OF rest] show ?case by simp
qed

lemma presplit_group_test_set:
  assumes "presplit_group env lm sd (trd, trl, ted, tel) sets = Inr sets'"
    and "load_spectra env ted = Some rows" and "load_labels env tel = Some ls"
  shows "set_data (test_set sets') = rows
       \<and> length (set_labels (test_set sets')) = length (set_labels (test_set sets)) + length ls"
  using assms
  by (auto simp: presplit_group_def split: option.splits sum.splits prod.splits
      dest!: for_each_add_label)

lemma presplit_two_groups:
  assumes pre: "use_pre_split cfg"
    and groups: "presplit_groups cfg = [(td1, tl1, ed1, el1), (td2, tl2, ed2, el2)]"
    and ld: "load_spectra env ed1 = Some rows1" "load_labels env el1 = Some ls1"
      "load_spectra env ed2 = Some rows2" "load_labels env el2 = Some ls2"
    and ok: "SAMRaman_init env cfg g0 = Inr (self, g')"
  shows "set_data (test_set (splits self)) = rows2
       \<and> length (set_labels (test_set (splits self))) = length ls1 + length ls2"
proof -
  from ok obtain g where "get_splits env cfg (label_map self) g = Inr (splits self, g')"
    by (rule init_generation)
  with pre groups obtain s1 where
    g1: "presplit_group env (label_map self) (seed cfg) (td1, tl1, ed1, el1) empty_sets = Inr s1"
    and g2: "presplit_group env (label_map self) (seed cfg) (td2, tl2, ed2, el2) s1 = Inr (splits self)"
    by (auto simp: get_splits_def split: sum.splits)
  from presplit_group_test_set [OF g1 ld(1,2)] presplit_group_test_set [OF g2 ld(3,4)]
  show ?thesis by (simp add: empty_sets_def empty_set_def)
qed

text \<open>
  Claim C2, on two groups of paths that the stratified split accepts (eight training
  rows in two classes of four each). The test set holds the two rows of the second test
  file beside the four codes of both test label files; the train set holds six rows
  beside twelve codes and the validation set two rows beside four codes. The rows of the
  first group are gone, and data and labels are not aligned.
\<close>

theorem presplit_data_overwritten:
  "use_pre_split demo_presplit
   \<and> test_data_path demo_presplit = [''test1'', ''test2'']
   \<and> load_spectra demo_env ''test1'' = Some [208, 209]
   \<and> load_spectra demo_env ''test2'' = Some [308, 309]
   \<and> load_labels demo_env ''test1_labels'' = Some [5, 6]
   \<and> load_labels demo_env ''test2_labels'' = Some [6, 5]
   \<and> \<not> isl (SAMRaman_init demo_env demo_presplit 0)
   \<and> set_data (test_set (splits (fst (projr (SAMRaman_init demo_env demo_presplit 0))))) = [308, 309]
   \<and> set_labels (test_set (splits (fst (projr (SAMRaman_init demo_env demo_presplit 0))))) = [0, 1, 1, 0]
   \<and> length (set_data (train_set (splits (fst (projr (SAMRaman_init demo_env demo_presplit 0)))))) = 6
   \<and> length (set_labels (train_set (splits (fst (projr (SAMRaman_init demo_env demo_presplit 0)))))) = 12
   \<and> length (set_data (val_set (splits (fst (projr (SAMRaman_init demo_env demo_presplit 0)))))) = 2
   \<and> length (set_labels (val_set (splits (fst (projr (SAMRaman_init demo_env demo_presplit 0)))))) = 4"
  by code_simp

end
